theory Spec2Isabelle
  imports Main
begin

section \<open>The SQLite store behind tallybot\<close>

text \<open>
  \<open>initializeDatabase\<close> creates three tables:
  \<^verbatim>\<open>tallies (item TEXT PRIMARY KEY, score INTEGER)\<close>,
  \<^verbatim>\<open>aliases (item TEXT PRIMARY KEY, group_id INTEGER)\<close> and
  \<^verbatim>\<open>groups (group_id INTEGER PRIMARY KEY AUTOINCREMENT)\<close>.
  A table is the list of its rows in rowid order: rows are only ever appended or updated in
  place, so this is also the order of a full scan. \<open>AUTOINCREMENT\<close> makes SQLite keep, in
  its \<open>sqlite_sequence\<close> table, the largest \<open>group_id\<close> ever handed out; that counter is the
  field \<open>sqlite_sequence\<close>.

  Go's \<open>int\<close> and SQLite's \<open>INTEGER\<close> are 64-bit; a score moves by one per match and
  the counter by one per allocation, so neither limit is within reach and both are
  modelled as unbounded \<open>int\<close>. The store is modelled as reliable: a statement fails only
  where SQL itself says so (no row to scan, a \<open>NULL\<close> scanned into an \<open>int\<close>, a
  primary-key conflict). Every statement still returns \<open>Inl\<close> an error or \<open>Inr\<close> its
  result, so that each \<open>err != nil\<close> check of the source is a case of the model.
\<close>

datatype sql_error = ErrNoRows | ErrNullScan | ErrConstraint

record database =
  tallies :: "(string \<times> int) list"
  aliases :: "(string \<times> int) list"
  groups :: "int list"
  sqlite_sequence :: int

definition empty_db :: database where
  "empty_db = \<lparr>tallies = [], aliases = [], groups = [], sqlite_sequence = 0\<rparr>"

text \<open>\<open>CREATE TABLE IF NOT EXISTS\<close>: a database file that is already there is kept as it is.\<close>

definition initializeDatabase :: "database option \<Rightarrow> database" where
  "initializeDatabase file = (case file of None \<Rightarrow> empty_db | Some d \<Rightarrow> d)"

subsection \<open>The SQL statements the bot issues\<close>

text \<open>\<^verbatim>\<open>SELECT COUNT(*) FROM tallies WHERE item = ?\<close>\<close>

definition count_tallies :: "database \<Rightarrow> string \<Rightarrow> sql_error + nat" where
  "count_tallies d item = Inr (length (filter (\<lambda>r. fst r = item) (tallies d)))"

text \<open>\<^verbatim>\<open>INSERT INTO tallies (item, score) VALUES (?, 0)\<close>\<close>

definition insert_tally :: "database \<Rightarrow> string \<Rightarrow> sql_error + database" where
  "insert_tally d item =
     (if item \<in> set (map fst (tallies d)) then Inl ErrConstraint
      else Inr (d\<lparr>tallies := tallies d @ [(item, 0)]\<rparr>))"

text \<open>
  \<^verbatim>\<open>INSERT INTO groups DEFAULT VALUES\<close> followed by \<open>LastInsertId\<close>: the new rowid is one
  more than the largest rowid that ever existed in the table.
\<close>

definition insert_group :: "database \<Rightarrow> sql_error + int \<times> database" where
  "insert_group d =
     (let gid = fold max (groups d) (sqlite_sequence d) + 1
      in Inr (gid, d\<lparr>groups := groups d @ [gid], sqlite_sequence := gid\<rparr>))"

text \<open>\<^verbatim>\<open>INSERT INTO aliases (item, group_id) VALUES (?, ?)\<close>\<close>

definition insert_alias :: "database \<Rightarrow> string \<Rightarrow> int \<Rightarrow> sql_error + database" where
  "insert_alias d item gid =
     (if item \<in> set (map fst (aliases d)) then Inl ErrConstraint
      else Inr (d\<lparr>aliases := aliases d @ [(item, gid)]\<rparr>))"

text \<open>\<^verbatim>\<open>SELECT score FROM tallies WHERE item = ?\<close>, scanned by \<open>QueryRow\<close>\<close>

definition select_score :: "database \<Rightarrow> string \<Rightarrow> sql_error + int" where
  "select_score d item =
     (case map_of (tallies d) item of None \<Rightarrow> Inl ErrNoRows | Some s \<Rightarrow> Inr s)"

text \<open>\<^verbatim>\<open>UPDATE tallies SET score = ? WHERE item = ?\<close>\<close>

definition update_score :: "database \<Rightarrow> int \<Rightarrow> string \<Rightarrow> sql_error + database" where
  "update_score d score item =
     Inr (d\<lparr>tallies := map (\<lambda>(i, s). if i = item then (i, score) else (i, s)) (tallies d)\<rparr>)"

text \<open>\<^verbatim>\<open>SELECT group_id FROM aliases WHERE item = ?\<close>, scanned by \<open>QueryRow\<close>\<close>

definition select_group_id :: "database \<Rightarrow> string \<Rightarrow> sql_error + int" where
  "select_group_id d item =
     (case map_of (aliases d) item of None \<Rightarrow> Inl ErrNoRows | Some g \<Rightarrow> Inr g)"

text \<open>\<^verbatim>\<open>UPDATE aliases SET group_id = ? WHERE group_id = ?\<close>\<close>

definition update_aliases_group :: "database \<Rightarrow> int \<Rightarrow> int \<Rightarrow> sql_error + database" where
  "update_aliases_group d new old =
     Inr (d\<lparr>aliases := map (\<lambda>(i, g). if g = old then (i, new) else (i, g)) (aliases d)\<rparr>)"

text \<open>\<^verbatim>\<open>DELETE FROM groups WHERE group_id = ?\<close>\<close>

definition delete_group :: "database \<Rightarrow> int \<Rightarrow> sql_error + database" where
  "delete_group d gid = Inr (d\<lparr>groups := filter (\<lambda>g. g \<noteq> gid) (groups d)\<rparr>)"

text \<open>\<^verbatim>\<open>UPDATE aliases SET group_id = ? WHERE item = ?\<close>\<close>

definition update_alias_item :: "database \<Rightarrow> int \<Rightarrow> string \<Rightarrow> sql_error + database" where
  "update_alias_item d new item =
     Inr (d\<lparr>aliases := map (\<lambda>(i, g). if i = item then (i, new) else (i, g)) (aliases d)\<rparr>)"

text \<open>
  \<^verbatim>\<open>SELECT SUM(score) FROM tallies JOIN aliases USING(item) WHERE group_id = ?\<close>:
  \<open>SUM\<close> over no rows is \<open>NULL\<close>, which \<open>Scan\<close> cannot store in an \<open>int\<close>.
\<close>

definition joined_scores :: "database \<Rightarrow> int \<Rightarrow> int list" where
  "joined_scores d gid =
     concat (map (\<lambda>(i, s). map (\<lambda>_. s) (filter (\<lambda>(j, g). j = i \<and> g = gid) (aliases d)))
       (tallies d))"

definition select_sum_score :: "database \<Rightarrow> int \<Rightarrow> sql_error + int" where
  "select_sum_score d gid =
     (case joined_scores d gid of [] \<Rightarrow> Inl ErrNullScan | s # ss \<Rightarrow> Inr (sum_list (s # ss)))"

text \<open>\<^verbatim>\<open>SELECT item FROM aliases WHERE group_id = ? AND item != ?\<close>\<close>

definition select_linked :: "database \<Rightarrow> int \<Rightarrow> string \<Rightarrow> sql_error + string list" where
  "select_linked d gid item =
     Inr (map fst (filter (\<lambda>(i, g). g = gid \<and> i \<noteq> item) (aliases d)))"

section \<open>The data layer of tallybot.go\<close>

text \<open>
  Each function is a method of \<open>TallyBot\<close> that touches only \<open>bot.db\<close>; the database is
  passed in and the updated one returned. An \<open>err != nil\<close> branch logs and returns, leaving
  behind what the statements before it wrote.
\<close>

definition ensureItemExists :: "database \<Rightarrow> string \<Rightarrow> database" where
  "ensureItemExists d item =
     (case count_tallies d item of
        Inl e \<Rightarrow> d
      | Inr count \<Rightarrow>
          if count = 0 then
            (case insert_tally d item of
               Inl e \<Rightarrow> d
             | Inr d1 \<Rightarrow>
                 (case insert_group d1 of
                    Inl e \<Rightarrow> d1
                  | Inr (groupID, d2) \<Rightarrow>
                      (case insert_alias d2 item groupID of
                         Inl e \<Rightarrow> d2
                       | Inr d3 \<Rightarrow> d3)))
          else d)"

definition getScore :: "database \<Rightarrow> string \<Rightarrow> int" where
  "getScore d item = (case select_score d item of Inl e \<Rightarrow> 0 | Inr score \<Rightarrow> score)"

definition updateScore :: "database \<Rightarrow> string \<Rightarrow> int \<Rightarrow> database" where
  "updateScore d item score =
     (case update_score d score item of Inl e \<Rightarrow> d | Inr d1 \<Rightarrow> d1)"

definition getGroupID :: "database \<Rightarrow> string \<Rightarrow> int" where
  "getGroupID d item = (case select_group_id d item of Inl e \<Rightarrow> 0 | Inr groupID \<Rightarrow> groupID)"

definition linkItems :: "database \<Rightarrow> string \<Rightarrow> string \<Rightarrow> database" where
  "linkItems d item1 item2 =
     (let d1 = ensureItemExists d item1;
          d2 = ensureItemExists d1 item2;
          group1 = getGroupID d2 item1;
          group2 = getGroupID d2 item2
      in if group1 \<noteq> group2
         then (case update_aliases_group d2 group1 group2 of
                 Inl e \<Rightarrow> d2
               | Inr d3 \<Rightarrow>
                   (case delete_group d3 group2 of Inl e \<Rightarrow> d3 | Inr d4 \<Rightarrow> d4))
         else d2)"

definition unlinkItems :: "database \<Rightarrow> string \<Rightarrow> string \<Rightarrow> database" where
  "unlinkItems d item1 item2 =
     (let d1 = ensureItemExists d item1;
          d2 = ensureItemExists d1 item2;
          group1 = getGroupID d2 item1;
          group2 = getGroupID d2 item2
      in if group1 = group2
         then (case insert_group d2 of
                 Inl e \<Rightarrow> d2
               | Inr (newGroupID, d3) \<Rightarrow>
                   (case update_alias_item d3 newGroupID item2 of
                      Inl e \<Rightarrow> d3
                    | Inr d4 \<Rightarrow> d4))
         else d2)"

definition getTotalScore :: "database \<Rightarrow> string \<Rightarrow> int" where
  "getTotalScore d item =
     (let groupID = getGroupID d item
      in if groupID = 0 then getScore d item
         else (case select_sum_score d groupID of Inl e \<Rightarrow> 0 | Inr total' \<Rightarrow> total'))"

definition getLinkedItems :: "database \<Rightarrow> string \<Rightarrow> string list" where
  "getLinkedItems d item =
     (let groupID = getGroupID d item
      in if groupID = 0 then []
         else (case select_linked d groupID item of Inl e \<Rightarrow> [] | Inr items \<Rightarrow> items))"

section \<open>The message handler\<close>

subsection \<open>Strings\<close>

text \<open>
  A message is a byte string. \<open>strings.TrimSpace\<close> and \<open>strings.ToLower\<close> are modelled on
  ASCII: the six ASCII white-space bytes are trimmed and \<open>A\<close>..\<open>Z\<close> are lowered; every other
  byte is kept as it is.
\<close>

definition is_space :: "char \<Rightarrow> bool" where
  "is_space c = (let n = (of_char c :: nat) in (9 \<le> n \<and> n \<le> 13) \<or> n = 32)"

definition TrimSpace :: "string \<Rightarrow> string" where
  "TrimSpace s = rev (dropWhile is_space (rev (dropWhile is_space s)))"

definition lower_char :: "char \<Rightarrow> char" where
  "lower_char c =
     (let n = (of_char c :: nat) in if 65 \<le> n \<and> n \<le> 90 then char_of (n + 32) else c)"

definition ToLower :: "string \<Rightarrow> string" where
  "ToLower s = map lower_char s"

fun Join :: "string list \<Rightarrow> string \<Rightarrow> string" where
  "Join [] sep = []"
| "Join [x] sep = x"
| "Join (x # y # ys) sep = x @ sep @ Join (y # ys) sep"

text \<open>The verb \<open>%d\<close> of \<open>fmt.Sprintf\<close>.\<close>

function digits :: "nat \<Rightarrow> string" where
  "digits n = (if n < 10 then [char_of (48 + n)] else digits (n div 10) @ [char_of (48 + n mod 10)])"
  by pat_completeness auto
termination
  by (relation "measure (\<lambda>n. n)") auto

definition itoa :: "int \<Rightarrow> string" where
  "itoa i = (if i < 0 then CHR ''-'' # digits (nat (- i)) else digits (nat i))"

subsection \<open>The five regular expressions\<close>

text \<open>
  \<open>\w\<close> is \<open>[0-9A-Za-z_]\<close> in Go's \<open>regexp\<close>; an item is \<open>[\w\.]+\<close>. Without the flag
  \<open>m\<close>, \<open>^\<close> and \<open>$\<close> match only at the two ends of the text. A blank is no item
  character, so the greedy first group of \<open>linkRegex\<close> is the longest run of item characters.
\<close>

definition is_word_char :: "char \<Rightarrow> bool" where
  "is_word_char c =
     (let n = (of_char c :: nat)
      in (48 \<le> n \<and> n \<le> 57) \<or> (65 \<le> n \<and> n \<le> 90) \<or> n = 95 \<or> (97 \<le> n \<and> n \<le> 122))"

definition is_item_char :: "char \<Rightarrow> bool" where
  "is_item_char c = (is_word_char c \<or> c = CHR ''.'')"

definition strip_prefix :: "string \<Rightarrow> string \<Rightarrow> string option" where
  "strip_prefix p s = (if take (length p) s = p then Some (drop (length p) s) else None)"

text \<open>\<^verbatim>\<open>^!help$\<close>\<close>

definition helpRegex :: "string \<Rightarrow> bool" where
  "helpRegex s = (s = ''!help'')"

text \<open>\<^verbatim>\<open>^<cmd>([\w\.]+) ([\w\.]+)$\<close>, the command with its blank being \<open>cmd\<close>\<close>

definition match_two_items :: "string \<Rightarrow> string \<Rightarrow> (string \<times> string) option" where
  "match_two_items cmd s =
     (case strip_prefix cmd s of
        None \<Rightarrow> None
      | Some r \<Rightarrow>
          (let item1 = takeWhile is_item_char r;
               r1 = dropWhile is_item_char r;
               item2 = drop 1 r1
           in if item1 \<noteq> [] \<and> take 1 r1 = '' '' \<and> item2 \<noteq> [] \<and> list_all is_item_char item2
              then Some (item1, item2) else None))"

definition linkRegex :: "string \<Rightarrow> (string \<times> string) option" where
  "linkRegex s = match_two_items ''!link '' s"

definition unlinkRegex :: "string \<Rightarrow> (string \<times> string) option" where
  "unlinkRegex s = match_two_items ''!unlink '' s"

text \<open>\<^verbatim>\<open>^!total ([\w\.]+)$\<close>\<close>

definition totalRegex :: "string \<Rightarrow> string option" where
  "totalRegex s =
     (case strip_prefix ''!total '' s of
        None \<Rightarrow> None
      | Some r \<Rightarrow> if r \<noteq> [] \<and> list_all is_item_char r then Some r else None)"

text \<open>
  \<^verbatim>\<open>([\w\.]+)(\+\+|--)\<close> under \<open>FindAllStringSubmatch(message, -1)\<close>: the matches from left
  to right, without overlap. Neither \<open>+\<close> nor \<open>-\<close> is an item character, so a match is a
  whole run of item characters with the operator right behind it; a run followed by
  anything else holds no match.
\<close>

function upvoteRegex :: "string \<Rightarrow> (string \<times> string) list" where
  "upvoteRegex s =
     (case s of
        [] \<Rightarrow> []
      | c # cs \<Rightarrow>
          if is_item_char c then
            (let run = takeWhile is_item_char s;
                 rest = dropWhile is_item_char s;
                 operation = take 2 rest
             in if operation = ''++'' \<or> operation = ''--''
                then (run, operation) # upvoteRegex (drop 2 rest)
                else upvoteRegex rest)
          else upvoteRegex cs)"
  by pat_completeness auto
termination
proof (relation "measure length")
  show "wf (measure (length :: string \<Rightarrow> nat))" by simp
next
  fix s :: string and c cs run rest operation
  assume s: "s = c # cs" and c: "is_item_char c"
    and rest: "rest = dropWhile is_item_char s"
  have "length rest \<le> length cs"
    using s c rest by (simp add: length_dropWhile_le)
  then show "(drop 2 rest, s) \<in> measure length" using s by simp
next
  fix s :: string and c cs run rest operation
  assume s: "s = c # cs" and c: "is_item_char c"
    and rest: "rest = dropWhile is_item_char s"
  have "length rest \<le> length cs"
    using s c rest by (simp add: length_dropWhile_le)
  then show "(rest, s) \<in> measure length" using s by simp
next
  fix s :: string and c cs
  assume "s = c # cs"
  then show "(cs, s) \<in> measure length" by simp
qed

subsection \<open>handleMessage\<close>

text \<open>
  \<open>conn.Privmsg(target, text)\<close> is modelled by appending \<open>(target, text)\<close> to the list of
  messages sent so far.
\<close>

type_synonym outbox = "(string \<times> string) list"

definition help_text :: string where
  "help_text =
     ''Available commands:'' @ [CHR 0x0A] @
     ''item++ or item--: Increment/decrement score for item'' @ [CHR 0x0A] @
     ''!link item1 item2: Link two items to share scores'' @ [CHR 0x0A] @
     ''!unlink item1 item2: Unlink two items'' @ [CHR 0x0A] @
     ''!total item: Show total score for item and all linked items''"

text \<open>The body of the loop over \<open>upvoteMatches\<close>, for one match.\<close>

definition upvote_step :: "string \<Rightarrow> database \<times> outbox \<Rightarrow> string \<times> string \<Rightarrow> database \<times> outbox" where
  "upvote_step target st m =
     (let item = ToLower (fst m);
          operation = snd m;
          d1 = ensureItemExists (fst st) item;
          currentScore = getScore d1 item;
          newScore = (if operation = ''++'' then currentScore + 1 else currentScore - 1);
          d2 = updateScore d1 item newScore;
          linkedItems = getLinkedItems d2 item;
          linkedStr = (if length linkedItems > 0
                       then '' (linked with: '' @ Join linkedItems '', '' @ '')'' else [])
      in (d2, snd st @ [(target, item @ '': ['' @ itoa newScore @ '']'' @ linkedStr)]))"

fun upvote_loop :: "string \<Rightarrow> database \<times> outbox \<Rightarrow> (string \<times> string) list \<Rightarrow> database \<times> outbox" where
  "upvote_loop target st [] = st"
| "upvote_loop target st (m # ms) = upvote_loop target (upvote_step target st m) ms"

text \<open>
  The commands after the channel guard and the help branch are the same in both source
  files; they differ in where the answer goes (\<open>channel\<close> in tallybot.go, \<open>bot.channel\<close> in
  the single-channel file).
\<close>

definition handle_commands :: "string \<Rightarrow> database \<times> outbox \<Rightarrow> string \<Rightarrow> database \<times> outbox" where
  "handle_commands target st message =
     (let messageLower = ToLower message
      in case unlinkRegex messageLower of
           Some (item1, item2) \<Rightarrow>
             (unlinkItems (fst st) item1 item2,
              snd st @ [(target, ''Unlinked '' @ item1 @ '' and '' @ item2 @ ''.'')])
         | None \<Rightarrow>
        (case linkRegex messageLower of
           Some (item1, item2) \<Rightarrow>
             (linkItems (fst st) item1 item2,
              snd st @ [(target, ''Linked '' @ item1 @ '' and '' @ item2 @ ''.'')])
         | None \<Rightarrow>
        (case totalRegex messageLower of
           Some item \<Rightarrow>
             (fst st,
              snd st @ [(target, ''Total score for group including '' @ item @ '': ['' @
                 itoa (getTotalScore (fst st) item) @ '']'')])
         | None \<Rightarrow> upvote_loop target st (upvoteRegex message))))"

record TallyBot =
  db :: database
  activeChannels :: "string \<Rightarrow> bool"
  conn :: outbox

text \<open>\<open>handleMessage\<close> of tallybot.go.\<close>

definition handleMessage :: "TallyBot \<Rightarrow> string \<Rightarrow> string \<Rightarrow> string \<Rightarrow> TallyBot" where
  "handleMessage tbot channel nick message =
     (let isPM = (take 1 channel \<noteq> ''#'')
      in if \<not> isPM \<and> \<not> activeChannels tbot channel then tbot
         else
           (let message1 = TrimSpace message;
                messageLower = ToLower message1
            in if helpRegex messageLower
               then tbot\<lparr>conn := conn tbot @ [(channel, help_text)]\<rparr>
               else (case handle_commands channel (db tbot, conn tbot) message1 of
                       (d, out) \<Rightarrow> tbot\<lparr>db := d, conn := out\<rparr>)))"

text \<open>\<open>handleMessage\<close> of the single-channel source file: no channel guard and no help branch.\<close>

record TallyBot_single =
  single_db :: database
  single_channel :: string
  single_conn :: outbox

definition handleMessage_single :: "TallyBot_single \<Rightarrow> string \<Rightarrow> string \<Rightarrow> TallyBot_single" where
  "handleMessage_single tbot nick message =
     (let message1 = TrimSpace message
      in case handle_commands (single_channel tbot) (single_db tbot, single_conn tbot) message1 of
           (d, out) \<Rightarrow> tbot\<lparr>single_db := d, single_conn := out\<rparr>)"

section \<open>Observations, invariants and runs\<close>

subsection \<open>What a store shows\<close>

text \<open>
  The items created so far are the keys of \<open>tallies\<close>; the live group identifiers are the
  ones some \<open>aliases\<close> row holds; the members of a group are the items mapped to its
  identifier, in table order.
\<close>

definition created :: "database \<Rightarrow> string set" where
  "created d = set (map fst (tallies d))"

definition group_ids :: "database \<Rightarrow> int set" where
  "group_ids d = set (map snd (aliases d))"

definition group_members :: "database \<Rightarrow> int \<Rightarrow> string list" where
  "group_members d gid = map fst (filter (\<lambda>(i, g). g = gid) (aliases d))"

text \<open>The first two statements of \<open>linkItems\<close> and of \<open>unlinkItems\<close>.\<close>

definition ensure_both :: "database \<Rightarrow> string \<Rightarrow> string \<Rightarrow> database" where
  "ensure_both d a b = ensureItemExists (ensureItemExists d a) b"

subsection \<open>The invariant of reachable stores\<close>

text \<open>
  \<open>tallies\<close> and \<open>aliases\<close> have the same keys, each once; every group identifier in
  \<open>aliases\<close> is a row of \<open>groups\<close>; every row of \<open>groups\<close> lies between 1 and the
  \<open>AUTOINCREMENT\<close> counter.
\<close>

definition store_inv :: "database \<Rightarrow> bool" where
  "store_inv d =
     (distinct (map fst (tallies d)) \<and> distinct (map fst (aliases d)) \<and>
      set (map fst (tallies d)) = set (map fst (aliases d)) \<and>
      list_all (\<lambda>g. 1 \<le> g \<and> g \<le> sqlite_sequence d \<and> g \<in> set (groups d)) (map snd (aliases d)) \<and>
      list_all (\<lambda>g. 1 \<le> g \<and> g \<le> sqlite_sequence d) (groups d) \<and>
      0 \<le> sqlite_sequence d)"

text \<open>
  The partition over created items is total and single-valued: an item of \<open>tallies\<close> has
  exactly one \<open>aliases\<close> row, and every \<open>aliases\<close> row belongs to an item of \<open>tallies\<close>.
\<close>

definition partition_ok :: "database \<Rightarrow> bool" where
  "partition_ok d =
     (set (map fst (tallies d)) = set (map fst (aliases d)) \<and>
      distinct (map fst (tallies d)) \<and>
      distinct (map fst (aliases d)) \<and>
      (\<forall>n \<in> created d. \<exists>!g. (n, g) \<in> set (aliases d)) \<and>
      (\<forall>r \<in> set (aliases d). fst r \<in> created d))"

text \<open>
  \<open>extends d d'\<close>: the counter did not go back, and an identifier live in \<open>d'\<close> was
  live in \<open>d\<close> already or was handed out after \<open>d\<close>.
\<close>

definition extends :: "database \<Rightarrow> database \<Rightarrow> bool" where
  "extends d d' =
     (sqlite_sequence d \<le> sqlite_sequence d' \<and>
      (\<forall>g \<in> group_ids d'. g \<in> group_ids d \<or> sqlite_sequence d < g))"

subsection \<open>Sequences of operations and of messages\<close>

text \<open>
  The operations of the data layer. \<open>ApplyDelta\<close> is one round of the loop over
  \<open>upvoteMatches\<close>; \<open>Total\<close> and \<open>ListLinked\<close> only read.
\<close>

datatype operation =
    EnsureItem string
  | ApplyDelta string string
  | Link string string
  | Unlink string string
  | Total string
  | ListLinked string

fun apply_op :: "operation \<Rightarrow> database \<Rightarrow> database" where
  "apply_op (EnsureItem n) d = ensureItemExists d n"
| "apply_op (ApplyDelta n operation) d = fst (upvote_step [] (d, []) (n, operation))"
| "apply_op (Link a b) d = linkItems d a b"
| "apply_op (Unlink a b) d = unlinkItems d a b"
| "apply_op (Total n) d = d"
| "apply_op (ListLinked n) d = d"

definition run_ops :: "database \<Rightarrow> operation list \<Rightarrow> database" where
  "run_ops d ops = fold apply_op ops d"

text \<open>The operations one line asks for, once it is past the channel guard and is not \<open>!help\<close>.\<close>

definition message_ops :: "string \<Rightarrow> operation list" where
  "message_ops message =
     (case unlinkRegex (ToLower message) of
        Some (item1, item2) \<Rightarrow> [Unlink item1 item2]
      | None \<Rightarrow>
     (case linkRegex (ToLower message) of
        Some (item1, item2) \<Rightarrow> [Link item1 item2]
      | None \<Rightarrow>
     (case totalRegex (ToLower message) of
        Some item \<Rightarrow> [Total item]
      | None \<Rightarrow> map (\<lambda>m. ApplyDelta (fst m) (snd m)) (upvoteRegex message))))"

text \<open>What \<open>handleMessage\<close> of tallybot.go does with a line that is past the channel guard.\<close>

definition process_line :: "string \<Rightarrow> database \<times> outbox \<Rightarrow> string \<Rightarrow> database \<times> outbox" where
  "process_line channel st m =
     (if helpRegex (ToLower (TrimSpace m)) then (fst st, snd st @ [(channel, help_text)])
      else handle_commands channel st (TrimSpace m))"

text \<open>Handling a list of lines, one after the other, in either source file.\<close>

definition handleMessages :: "TallyBot \<Rightarrow> string \<Rightarrow> string \<Rightarrow> string list \<Rightarrow> TallyBot" where
  "handleMessages tbot channel nick ms = fold (\<lambda>m b. handleMessage b channel nick m) ms tbot"

definition handleMessages_single :: "TallyBot_single \<Rightarrow> string \<Rightarrow> string list \<Rightarrow> TallyBot_single" where
  "handleMessages_single tbot nick ms = fold (\<lambda>m b. handleMessage_single b nick m) ms tbot"

subsection \<open>Example stores and scripts\<close>

definition demo_ops :: "operation list" where
  "demo_ops = [ApplyDelta ''Alpha'' ''++'', Link ''alpha'' ''beta'', Link ''beta'' ''gamma'',
               Unlink ''alpha'' ''beta'', Total ''beta'', Link ''beta'' ''delta'']"

definition tally_ops :: "operation list" where
  "tally_ops = [ApplyDelta ''alpha'' ''++'', ApplyDelta ''beta'' ''++'', Link ''alpha'' ''beta'',
                ApplyDelta ''alpha'' ''++'', EnsureItem ''gamma'', ApplyDelta ''gamma'' ''--'']"

definition retire_start :: database where
  "retire_start = run_ops empty_db [EnsureItem ''a'', EnsureItem ''b'']"

definition trio :: database where
  "trio = run_ops empty_db [Link ''a'' ''b'', Link ''b'' ''c'', EnsureItem ''z'']"

definition pair_ab :: database where
  "pair_ab = run_ops empty_db [Link ''a'' ''b'', EnsureItem ''s'']"

definition scored :: database where
  "scored = run_ops empty_db [ApplyDelta ''a'' ''++'', ApplyDelta ''a'' ''++'', ApplyDelta ''b'' ''--'']"

definition scenario_lines :: "string list" where
  "scenario_lines = [''alpha++'', ''beta++'', ''!link alpha beta'', ''alpha++'', ''!total beta'']"

definition scenario_replies :: "string list" where
  "scenario_replies = [''alpha: [1]'', ''beta: [1]'', ''Linked alpha and beta.'',
     ''alpha: [2] (linked with: beta)'', ''Total score for group including beta: [3]'']"

definition channel_bot :: TallyBot where
  "channel_bot = \<lparr>db = initializeDatabase None, activeChannels = (\<lambda>c. c = ''#tallybot''), conn = []\<rparr>"

definition single_bot :: TallyBot_single where
  "single_bot = \<lparr>single_db = empty_db, single_channel = ''#tallybot'', single_conn = []\<rparr>"

section \<open>Properties of the data layer\<close>

subsection \<open>The invariant is kept\<close>

lemma fold_max_bounded: "\<forall>x\<in>set xs. x \<le> (a::int) \<Longrightarrow> fold max xs a = a"
  by (induction xs arbitrary: a) (auto simp: max_def)

lemma insert_group_inv:
  assumes "store_inv d"
  shows "insert_group d =
    Inr (sqlite_sequence d + 1,
     d\<lparr>groups := groups d @ [sqlite_sequence d + 1], sqlite_sequence := sqlite_sequence d + 1\<rparr>)"
proof -
  have "\<forall>x\<in>set (groups d). x \<le> sqlite_sequence d"
    using assms by (simp add: store_inv_def list_all_iff)
  then have "fold max (groups d) (sqlite_sequence d) = sqlite_sequence d"
    by (rule fold_max_bounded)
  then show ?thesis by (simp add: insert_group_def Let_def)
qed

lemma count_tallies_zero:
  "(count_tallies d n = Inr 0) = (n \<notin> set (map fst (tallies d)))"
  by (auto simp: count_tallies_def filter_empty_conv)

lemma count_tallies_Inr: "\<exists>k. count_tallies d n = Inr k"
  by (simp add: count_tallies_def)

lemma ensure_existing:
  assumes "n \<in> set (map fst (tallies d))"
  shows "ensureItemExists d n = d"
proof -
  obtain k where k: "count_tallies d n = Inr k" using count_tallies_Inr by blast
  then have "k \<noteq> 0" using assms count_tallies_zero [of d n] by auto
  then show ?thesis by (simp add: ensureItemExists_def k)
qed

lemma ensure_new:
  assumes "store_inv d" and "n \<notin> set (map fst (tallies d))"
  shows "ensureItemExists d n =
    d\<lparr>tallies := tallies d @ [(n, 0)],
      aliases := aliases d @ [(n, sqlite_sequence d + 1)],
      groups := groups d @ [sqlite_sequence d + 1],
      sqlite_sequence := sqlite_sequence d + 1\<rparr>"
proof -
  have n_al: "n \<notin> set (map fst (aliases d))"
    using assms by (simp add: store_inv_def)
  have bnd: "\<forall>x\<in>set (groups d). x \<le> sqlite_sequence d"
    using assms by (simp add: store_inv_def list_all_iff)
  have fm: "fold max (groups d) (sqlite_sequence d) = sqlite_sequence d"
    using bnd by (rule fold_max_bounded)
  have c: "count_tallies d n = Inr 0" using assms(2) by (simp add: count_tallies_zero)
  show ?thesis
    using assms(2) n_al fm
    by (simp add: ensureItemExists_def c insert_tally_def insert_group_def
        insert_alias_def Let_def)
qed

lemma store_inv_alias_row:
  "store_inv d \<Longrightarrow> (n, g) \<in> set (aliases d) \<Longrightarrow>
     1 \<le> g \<and> g \<le> sqlite_sequence d \<and> g \<in> set (groups d)"
  by (auto simp: store_inv_def list_all_iff)

lemma store_invI:
  assumes "distinct (map fst (tallies d))" and "distinct (map fst (aliases d))"
    and "set (map fst (tallies d)) = set (map fst (aliases d))"
    and "\<And>n g. (n, g) \<in> set (aliases d) \<Longrightarrow>
           1 \<le> g \<and> g \<le> sqlite_sequence d \<and> g \<in> set (groups d)"
    and "\<And>g. g \<in> set (groups d) \<Longrightarrow> 1 \<le> g \<and> g \<le> sqlite_sequence d"
    and "0 \<le> sqlite_sequence d"
  shows "store_inv d"
  using assms by (auto simp: store_inv_def list_all_iff)

lemma store_inv_ensure:
  assumes "store_inv d"
  shows "store_inv (ensureItemExists d n)"
proof (cases "n \<in> set (map fst (tallies d))")
  case True
  then show ?thesis using assms by (simp add: ensure_existing)
next
  case False
  have n_al: "n \<notin> set (map fst (aliases d))"
    using assms False by (simp add: store_inv_def)
  have rows: "\<And>a b. (a, b) \<in> set (aliases d) \<Longrightarrow>
      1 \<le> b \<and> b \<le> sqlite_sequence d \<and> b \<in> set (groups d)"
    using assms by (rule store_inv_alias_row)
  have grp: "\<And>g. g \<in> set (groups d) \<Longrightarrow> 1 \<le> g \<and> g \<le> sqlite_sequence d"
    using assms by (simp add: store_inv_def list_all_iff)
  have basics: "distinct (map fst (tallies d))" "distinct (map fst (aliases d))"
    "set (map fst (tallies d)) = set (map fst (aliases d))" "0 \<le> sqlite_sequence d"
    using assms by (simp_all add: store_inv_def)
  show ?thesis
    unfolding ensure_new [OF assms False]
    using basics False n_al
    by (fastforce simp: store_inv_def list_all_iff dest: rows grp)
qed

lemma getGroupID_conv:
  "getGroupID d n = (case map_of (aliases d) n of None \<Rightarrow> 0 | Some g \<Rightarrow> g)"
  by (simp add: getGroupID_def select_group_id_def split: option.splits)

lemma getScore_conv:
  "getScore d n = (case map_of (tallies d) n of None \<Rightarrow> 0 | Some s \<Rightarrow> s)"
  by (simp add: getScore_def select_score_def split: option.splits)

lemma getGroupID_zero_iff:
  assumes "store_inv d"
  shows "(getGroupID d n = 0) = (n \<notin> set (map fst (aliases d)))"
proof (cases "map_of (aliases d) n")
  case None
  then have "n \<notin> set (map fst (aliases d))" by (simp add: map_of_eq_None_iff)
  then show ?thesis using None by (simp add: getGroupID_conv)
next
  case (Some g)
  then have mem: "(n, g) \<in> set (aliases d)" by (rule map_of_SomeD)
  then have "1 \<le> g" using assms store_inv_alias_row by blast
  moreover have "n \<in> set (map fst (aliases d))" using mem by force
  ultimately show ?thesis using Some by (simp add: getGroupID_conv)
qed

lemma getGroupID_bounds:
  assumes "store_inv d" and "n \<in> set (map fst (aliases d))"
  shows "1 \<le> getGroupID d n \<and> getGroupID d n \<le> sqlite_sequence d
     \<and> getGroupID d n \<in> group_ids d \<and> getGroupID d n \<in> set (groups d)"
proof -
  obtain g where g: "map_of (aliases d) n = Some g"
    using assms(2) by (metis map_of_eq_None_iff not_Some_eq set_map)
  then have mem: "(n, g) \<in> set (aliases d)" by (rule map_of_SomeD)
  then have "g \<in> set (map snd (aliases d))" by force
  then show ?thesis using store_inv_alias_row [OF assms(1) mem] g
    by (simp add: getGroupID_conv group_ids_def)
qed

lemma getGroupID_ensure:
  assumes "store_inv d"
  shows "getGroupID (ensureItemExists d n) m =
    (if m = n \<and> n \<notin> set (map fst (tallies d)) then sqlite_sequence d + 1 else getGroupID d m)"
proof (cases "n \<in> set (map fst (tallies d))")
  case True
  then show ?thesis by (simp add: ensure_existing)
next
  case False
  have n_al: "map_of (aliases d) n = None"
    using assms False by (simp add: store_inv_def map_of_eq_None_iff)
  show ?thesis
    unfolding ensure_new [OF assms False]
    using False n_al
    by (auto simp: getGroupID_conv map_add_def split: option.splits)
qed

lemma map_of_regroup:
  "map_of (map (\<lambda>(i, g). if g = old then (i, new) else (i, g)) xs) n =
     map_option (\<lambda>g. if g = old then new else g) (map_of xs n)"
proof (induction xs)
  case Nil
  show ?case by simp
next
  case (Cons x xs)
  obtain i g where x: "x = (i, g)" by (cases x)
  show ?case using Cons.IH by (simp add: x)
qed

lemma map_of_move_same:
  "map_of (map (\<lambda>(i, g). if i = item then (i, new) else (i, g)) xs) item =
     map_option (\<lambda>_. new) (map_of xs item)"
proof (induction xs)
  case Nil
  show ?case by simp
next
  case (Cons x xs)
  obtain i g where x: "x = (i, g)" by (cases x)
  show ?case using Cons.IH by (simp add: x)
qed

lemma map_of_move_other:
  "n \<noteq> item \<Longrightarrow>
   map_of (map (\<lambda>(i, g). if i = item then (i, new) else (i, g)) xs) n = map_of xs n"
proof (induction xs)
  case Nil
  show ?case by simp
next
  case (Cons x xs)
  obtain i g where x: "x = (i, g)" by (cases x)
  show ?case using Cons by (simp add: x)
qed

lemma map_of_move:
  "map_of (map (\<lambda>(i, g). if i = item then (i, new) else (i, g)) xs) n =
     (if n = item then map_option (\<lambda>_. new) (map_of xs n) else map_of xs n)"
  by (simp add: map_of_move_same map_of_move_other)

lemma map_fst_regroup:
  "map fst (map (\<lambda>(i, g). if g = old then (i, new) else (i, g)) xs) = map fst xs"
  by (induction xs) auto

lemma map_fst_move:
  "map fst (map (\<lambda>(i, g). if i = item then (i, new) else (i, g)) xs) = map fst xs"
  by (induction xs) auto

lemma in_regroup:
  "((n, g) \<in> set (map (\<lambda>(i, g). if g = old then (i, new) else (i, g)) xs)) =
     (\<exists>g0. (n, g0) \<in> set xs \<and> g = (if g0 = old then new else g0))"
proof (induction xs)
  case Nil
  show ?case by simp
next
  case (Cons x xs)
  obtain i g1 where x: "x = (i, g1)" by (cases x)
  show ?case
  proof (cases "g1 = old")
    case True
    then show ?thesis using Cons.IH by (auto simp: x)
  next
    case False
    then show ?thesis using Cons.IH by (auto simp: x)
  qed
qed

lemma in_move:
  "((n, g) \<in> set (map (\<lambda>(i, g). if i = item then (i, new) else (i, g)) xs)) =
     (\<exists>g0. (n, g0) \<in> set xs \<and> g = (if n = item then new else g0))"
proof (induction xs)
  case Nil
  show ?case by simp
next
  case (Cons x xs)
  obtain i g1 where x: "x = (i, g1)" by (cases x)
  show ?case
  proof (cases "i = item")
    case True
    then show ?thesis using Cons.IH by (auto simp: x)
  next
    case False
    then show ?thesis using Cons.IH by (auto simp: x)
  qed
qed

lemma store_inv_ensure_both: "store_inv d \<Longrightarrow> store_inv (ensure_both d a b)"
  by (simp add: ensure_both_def store_inv_ensure)

lemma tallies_keys_ensure:
  assumes "store_inv d"
  shows "set (map fst (tallies (ensureItemExists d n))) = insert n (set (map fst (tallies d)))"
proof (cases "n \<in> set (map fst (tallies d))")
  case True
  then show ?thesis by (auto simp: ensure_existing)
next
  case False
  show ?thesis unfolding ensure_new [OF assms False] by simp
qed

lemma exists_ensure_both:
  assumes "store_inv d"
  shows "a \<in> set (map fst (aliases (ensure_both d a b)))"
    and "b \<in> set (map fst (aliases (ensure_both d a b)))"
proof -
  let ?d1 = "ensureItemExists d a"
  have inv1: "store_inv ?d1" using assms by (rule store_inv_ensure)
  have inv2: "store_inv (ensure_both d a b)" using assms by (rule store_inv_ensure_both)
  have k: "set (map fst (tallies (ensure_both d a b))) = insert b (insert a (set (map fst (tallies d))))"
    unfolding ensure_both_def tallies_keys_ensure [OF inv1] tallies_keys_ensure [OF assms] ..
  have eq: "set (map fst (tallies (ensure_both d a b))) = set (map fst (aliases (ensure_both d a b)))"
    using inv2 by (simp add: store_inv_def)
  show "a \<in> set (map fst (aliases (ensure_both d a b)))" using k eq by auto
  show "b \<in> set (map fst (aliases (ensure_both d a b)))" using k eq by auto
qed

lemma linkItems_conv:
  "linkItems d a b =
     (let d2 = ensure_both d a b; g1 = getGroupID d2 a; g2 = getGroupID d2 b
      in if g1 \<noteq> g2
         then d2\<lparr>aliases := map (\<lambda>(i, g). if g = g2 then (i, g1) else (i, g)) (aliases d2),
                 groups := filter (\<lambda>g. g \<noteq> g2) (groups d2)\<rparr>
         else d2)"
  by (simp add: linkItems_def ensure_both_def Let_def update_aliases_group_def delete_group_def)

lemma unlinkItems_conv:
  assumes "store_inv d"
  shows "unlinkItems d a b =
     (let d2 = ensure_both d a b
      in if getGroupID d2 a = getGroupID d2 b
         then d2\<lparr>aliases := map (\<lambda>(i, g). if i = b then (i, sqlite_sequence d2 + 1) else (i, g))
                    (aliases d2),
                 groups := groups d2 @ [sqlite_sequence d2 + 1],
                 sqlite_sequence := sqlite_sequence d2 + 1\<rparr>
         else d2)"
proof -
  have inv2: "store_inv (ensure_both d a b)" using assms by (rule store_inv_ensure_both)
  show ?thesis
    using insert_group_inv [OF inv2]
    by (simp add: unlinkItems_def ensure_both_def Let_def update_alias_item_def)
qed

lemma getGroupID_link:
  assumes "store_inv d"
  shows "getGroupID (linkItems d a b) n =
     (let d2 = ensure_both d a b
      in if getGroupID d2 n = getGroupID d2 b then getGroupID d2 a else getGroupID d2 n)"
proof -
  let ?d2 = "ensure_both d a b"
  have inv2: "store_inv ?d2" using assms by (rule store_inv_ensure_both)
  have b_ex: "b \<in> set (map fst (aliases ?d2))" using assms by (rule exists_ensure_both)
  have gb: "getGroupID ?d2 b \<noteq> 0" using getGroupID_zero_iff [OF inv2] b_ex by simp
  show ?thesis
    using gb
    by (auto simp: linkItems_conv Let_def getGroupID_conv map_of_regroup split: option.splits)
qed

lemma getGroupID_unlink:
  assumes "store_inv d"
  shows "getGroupID (unlinkItems d a b) n =
     (let d2 = ensure_both d a b
      in if getGroupID d2 a = getGroupID d2 b \<and> n = b then sqlite_sequence d2 + 1
         else getGroupID d2 n)"
proof -
  let ?d2 = "ensure_both d a b"
  have inv2: "store_inv ?d2" using assms by (rule store_inv_ensure_both)
  have b_ex: "b \<in> set (map fst (aliases ?d2))" using assms by (rule exists_ensure_both)
  then obtain g where "map_of (aliases ?d2) b = Some g"
    by (metis map_of_eq_None_iff not_Some_eq set_map)
  then show ?thesis
    by (auto simp: unlinkItems_conv [OF assms] Let_def getGroupID_conv map_of_move
        split: option.splits)
qed

lemma store_inv_link:
  assumes "store_inv d"
  shows "store_inv (linkItems d a b)"
proof -
  let ?d2 = "ensure_both d a b"
  let ?g1 = "getGroupID ?d2 a" and ?g2 = "getGroupID ?d2 b"
  let ?d3 = "?d2\<lparr>aliases := map (\<lambda>(i, g). if g = ?g2 then (i, ?g1) else (i, g)) (aliases ?d2),
                 groups := filter (\<lambda>g. g \<noteq> ?g2) (groups ?d2)\<rparr>"
  have inv2: "store_inv ?d2" using assms by (rule store_inv_ensure_both)
  have a_ex: "a \<in> set (map fst (aliases ?d2))" using assms by (rule exists_ensure_both)
  have g1: "1 \<le> ?g1 \<and> ?g1 \<le> sqlite_sequence ?d2 \<and> ?g1 \<in> set (groups ?d2)"
    using getGroupID_bounds [OF inv2 a_ex] by simp
  have rows: "\<And>x g. (x, g) \<in> set (aliases ?d2) \<Longrightarrow>
      1 \<le> g \<and> g \<le> sqlite_sequence ?d2 \<and> g \<in> set (groups ?d2)"
    using inv2 by (rule store_inv_alias_row)
  have grp: "\<And>g. g \<in> set (groups ?d2) \<Longrightarrow> 1 \<le> g \<and> g \<le> sqlite_sequence ?d2"
    using inv2 by (simp add: store_inv_def list_all_iff)
  have basics: "distinct (map fst (tallies ?d2))" "distinct (map fst (aliases ?d2))"
    "set (map fst (tallies ?d2)) = set (map fst (aliases ?d2))" "0 \<le> sqlite_sequence ?d2"
    using inv2 by (simp_all add: store_inv_def)
  show ?thesis
  proof (cases "?g1 = ?g2")
    case True
    then show ?thesis using inv2 by (simp add: linkItems_conv Let_def)
  next
    case False
    have "store_inv ?d3"
    proof (rule store_invI)
      have k: "map fst (aliases ?d3) = map fst (aliases ?d2)"
        by (simp add: map_fst_regroup del: map_map)
      show "distinct (map fst (tallies ?d3))" using basics by simp
      show "distinct (map fst (aliases ?d3))" unfolding k using basics by simp
      show "set (map fst (tallies ?d3)) = set (map fst (aliases ?d3))"
        unfolding k using basics(3) by simp
      show "0 \<le> sqlite_sequence ?d3" using basics by simp
      show "1 \<le> g \<and> g \<le> sqlite_sequence ?d3" if "g \<in> set (groups ?d3)" for g
        using that grp [of g] by simp
      show "1 \<le> g \<and> g \<le> sqlite_sequence ?d3 \<and> g \<in> set (groups ?d3)"
        if "(n, g) \<in> set (aliases ?d3)" for n g
      proof -
        from that have "(n, g) \<in> set (map (\<lambda>(i, g). if g = ?g2 then (i, ?g1) else (i, g))
            (aliases ?d2))" by simp
        then obtain g0 where r: "(n, g0) \<in> set (aliases ?d2)"
          and g: "g = (if g0 = ?g2 then ?g1 else g0)"
          unfolding in_regroup by blast
        show ?thesis
        proof (cases "g0 = ?g2")
          case True
          then show ?thesis using g g1 False by simp
        next
          case False
          then show ?thesis using g rows [OF r] by simp
        qed
      qed
    qed
    then show ?thesis using False by (simp add: linkItems_conv Let_def)
  qed
qed

lemma store_inv_unlink:
  assumes "store_inv d"
  shows "store_inv (unlinkItems d a b)"
proof -
  let ?d2 = "ensure_both d a b"
  let ?d3 = "?d2\<lparr>aliases := map (\<lambda>(i, g). if i = b then (i, sqlite_sequence ?d2 + 1) else (i, g))
                    (aliases ?d2),
                 groups := groups ?d2 @ [sqlite_sequence ?d2 + 1],
                 sqlite_sequence := sqlite_sequence ?d2 + 1\<rparr>"
  have inv2: "store_inv ?d2" using assms by (rule store_inv_ensure_both)
  have rows: "\<And>x g. (x, g) \<in> set (aliases ?d2) \<Longrightarrow>
      1 \<le> g \<and> g \<le> sqlite_sequence ?d2 \<and> g \<in> set (groups ?d2)"
    using inv2 by (rule store_inv_alias_row)
  have grp: "\<And>g. g \<in> set (groups ?d2) \<Longrightarrow> 1 \<le> g \<and> g \<le> sqlite_sequence ?d2"
    using inv2 by (simp add: store_inv_def list_all_iff)
  have basics: "distinct (map fst (tallies ?d2))" "distinct (map fst (aliases ?d2))"
    "set (map fst (tallies ?d2)) = set (map fst (aliases ?d2))" "0 \<le> sqlite_sequence ?d2"
    using inv2 by (simp_all add: store_inv_def)
  have "store_inv ?d3"
  proof (rule store_invI)
    have k: "map fst (aliases ?d3) = map fst (aliases ?d2)"
      by (simp add: map_fst_move del: map_map)
    show "distinct (map fst (tallies ?d3))" using basics by simp
    show "distinct (map fst (aliases ?d3))" unfolding k using basics by simp
    show "set (map fst (tallies ?d3)) = set (map fst (aliases ?d3))"
      unfolding k using basics(3) by simp
    show "0 \<le> sqlite_sequence ?d3" using basics by simp
    show "1 \<le> g \<and> g \<le> sqlite_sequence ?d3" if "g \<in> set (groups ?d3)" for g
    proof (cases "g \<in> set (groups ?d2)")
      case True
      then show ?thesis using grp [of g] by simp
    next
      case False
      then have "g = sqlite_sequence ?d2 + 1" using that by simp
      then show ?thesis using basics(4) by simp
    qed
    show "1 \<le> g \<and> g \<le> sqlite_sequence ?d3 \<and> g \<in> set (groups ?d3)"
      if "(n, g) \<in> set (aliases ?d3)" for n g
    proof -
      from that have "(n, g) \<in> set (map (\<lambda>(i, g). if i = b then (i, sqlite_sequence ?d2 + 1)
          else (i, g)) (aliases ?d2))" by simp
      then obtain g0 where r: "(n, g0) \<in> set (aliases ?d2)"
        and g: "g = (if n = b then sqlite_sequence ?d2 + 1 else g0)"
        unfolding in_move by blast
      show ?thesis using g rows [OF r] basics(4) by (cases "n = b") simp_all
    qed
  qed
  then show ?thesis using inv2 by (simp add: unlinkItems_conv [OF assms] Let_def)
qed

lemma map_fst_rescore:
  "map fst (map (\<lambda>(i, s'). if i = n then (i, s) else (i, s')) xs) = map fst xs"
  by (induction xs) auto

lemma store_inv_updateScore:
  assumes "store_inv d"
  shows "store_inv (updateScore d n s)"
proof -
  have k: "map fst (tallies (updateScore d n s)) = map fst (tallies d)"
    by (simp add: updateScore_def update_score_def map_fst_rescore del: map_map)
  have rest: "aliases (updateScore d n s) = aliases d" "groups (updateScore d n s) = groups d"
    "sqlite_sequence (updateScore d n s) = sqlite_sequence d"
    by (simp_all add: updateScore_def update_score_def)
  show ?thesis using assms unfolding store_inv_def k rest .
qed

lemma store_inv_empty: "store_inv empty_db"
  by (simp add: store_inv_def empty_db_def)

lemma created_aliases: "store_inv d \<Longrightarrow> created d = set (map fst (aliases d))"
  by (simp add: created_def store_inv_def)

lemma fst_upvote_step:
  "fst (upvote_step t (d, out) (m, operation)) =
     updateScore (ensureItemExists d (ToLower m)) (ToLower m)
       (if operation = ''++'' then getScore (ensureItemExists d (ToLower m)) (ToLower m) + 1
        else getScore (ensureItemExists d (ToLower m)) (ToLower m) - 1)"
  by (simp add: upvote_step_def Let_def)

lemma updateScore_frame:
  "aliases (updateScore d n s) = aliases d" "groups (updateScore d n s) = groups d"
  "sqlite_sequence (updateScore d n s) = sqlite_sequence d"
  by (simp_all add: updateScore_def update_score_def)

lemma store_inv_apply_op: "store_inv d \<Longrightarrow> store_inv (apply_op op d)"
  by (cases op)
    (simp_all add: store_inv_ensure store_inv_link store_inv_unlink store_inv_updateScore
      fst_upvote_step)

lemma store_inv_run_ops: "store_inv d \<Longrightarrow> store_inv (run_ops d ops)"
  unfolding run_ops_def
  by (induction ops arbitrary: d) (simp_all add: store_inv_apply_op)

lemma extends_refl: "extends d d"
  by (simp add: extends_def)

lemma extends_trans:
  assumes "extends d d'" and "extends d' d''"
  shows "extends d d''"
proof -
  have s1: "sqlite_sequence d \<le> sqlite_sequence d'" and s2: "sqlite_sequence d' \<le> sqlite_sequence d''"
    using assms by (simp_all add: extends_def)
  have "g \<in> group_ids d \<or> sqlite_sequence d < g" if "g \<in> group_ids d''" for g
  proof -
    from that assms(2) have "g \<in> group_ids d' \<or> sqlite_sequence d' < g"
      by (simp add: extends_def)
    then show ?thesis
    proof
      assume "g \<in> group_ids d'"
      then show ?thesis using assms(1) by (simp add: extends_def)
    next
      assume "sqlite_sequence d' < g"
      then show ?thesis using s1 by simp
    qed
  qed
  then show ?thesis using s1 s2 by (simp add: extends_def)
qed

lemma group_ids_ensure:
  assumes "store_inv d"
  shows "extends d (ensureItemExists d n)"
proof (cases "n \<in> set (map fst (tallies d))")
  case True
  then show ?thesis by (simp add: ensure_existing extends_refl)
next
  case False
  show ?thesis unfolding ensure_new [OF assms False]
    by (auto simp: extends_def group_ids_def)
qed

lemma extends_ensure_both:
  assumes "store_inv d"
  shows "extends d (ensure_both d a b)"
  unfolding ensure_both_def
  using group_ids_ensure [OF assms, of a]
    group_ids_ensure [OF store_inv_ensure [OF assms], of a b]
  by (rule extends_trans)

lemma in_group_ids: "(g \<in> group_ids d) = (\<exists>n. (n, g) \<in> set (aliases d))"
  by (force simp: group_ids_def)

lemma extends_link:
  assumes "store_inv d"
  shows "extends d (linkItems d a b)"
proof -
  let ?d2 = "ensure_both d a b"
  let ?g1 = "getGroupID ?d2 a" and ?g2 = "getGroupID ?d2 b"
  have inv2: "store_inv ?d2" using assms by (rule store_inv_ensure_both)
  have a_ex: "a \<in> set (map fst (aliases ?d2))" using assms by (rule exists_ensure_both)
  have g1: "?g1 \<in> group_ids ?d2"
    using getGroupID_bounds [OF inv2 a_ex] by simp
  have "extends ?d2 (linkItems d a b)"
  proof (cases "?g1 = ?g2")
    case True
    then show ?thesis by (simp add: linkItems_conv Let_def extends_refl)
  next
    case False
    have "g \<in> group_ids ?d2" if "g \<in> group_ids (linkItems d a b)" for g
    proof -
      have al: "aliases (linkItems d a b) =
          map (\<lambda>(i, g). if g = ?g2 then (i, ?g1) else (i, g)) (aliases ?d2)"
        using False by (simp add: linkItems_conv Let_def)
      from that obtain n where "(n, g) \<in> set (aliases (linkItems d a b))"
        unfolding in_group_ids by blast
      then have "(n, g) \<in> set (map (\<lambda>(i, g). if g = ?g2 then (i, ?g1)
          else (i, g)) (aliases ?d2))"
        unfolding al .
      then obtain g0 where r: "(n, g0) \<in> set (aliases ?d2)"
        and g: "g = (if g0 = ?g2 then ?g1 else g0)"
        unfolding in_regroup by blast
      show ?thesis
      proof (cases "g0 = ?g2")
        case True
        then show ?thesis using g g1 by simp
      next
        case False
        then have "g = g0" using g by simp
        then show ?thesis using r in_group_ids by blast
      qed
    qed
    moreover have "sqlite_sequence (linkItems d a b) = sqlite_sequence ?d2"
      by (simp add: linkItems_conv Let_def)
    ultimately show ?thesis by (simp add: extends_def)
  qed
  with extends_ensure_both [OF assms] show ?thesis by (rule extends_trans)
qed

lemma extends_unlink:
  assumes "store_inv d"
  shows "extends d (unlinkItems d a b)"
proof -
  let ?d2 = "ensure_both d a b"
  let ?g1 = "getGroupID ?d2 a" and ?g2 = "getGroupID ?d2 b"
  have "extends ?d2 (unlinkItems d a b)"
  proof (cases "?g1 = ?g2")
    case False
    then show ?thesis by (simp add: unlinkItems_conv [OF assms] Let_def extends_refl)
  next
    case True
    have "g \<in> group_ids ?d2 \<or> sqlite_sequence ?d2 < g" if "g \<in> group_ids (unlinkItems d a b)" for g
    proof -
      have al: "aliases (unlinkItems d a b) =
          map (\<lambda>(i, g). if i = b then (i, sqlite_sequence ?d2 + 1) else (i, g)) (aliases ?d2)"
        using True by (simp add: unlinkItems_conv [OF assms] Let_def)
      from that obtain n where "(n, g) \<in> set (aliases (unlinkItems d a b))"
        unfolding in_group_ids by blast
      then have "(n, g) \<in> set (map (\<lambda>(i, g). if i = b
          then (i, sqlite_sequence ?d2 + 1) else (i, g)) (aliases ?d2))"
        unfolding al .
      then obtain g0 where r: "(n, g0) \<in> set (aliases ?d2)"
        and g: "g = (if n = b then sqlite_sequence ?d2 + 1 else g0)"
        unfolding in_move by blast
      show ?thesis
      proof (cases "n = b")
        case True
        then show ?thesis using g by simp
      next
        case False
        then have "g = g0" using g by simp
        then show ?thesis using r in_group_ids by blast
      qed
    qed
    moreover have "sqlite_sequence ?d2 \<le> sqlite_sequence (unlinkItems d a b)"
      by (simp add: unlinkItems_conv [OF assms] Let_def)
    ultimately show ?thesis by (simp add: extends_def)
  qed
  with extends_ensure_both [OF assms] show ?thesis by (rule extends_trans)
qed

lemma extends_updateScore: "extends d (updateScore d n s)"
  by (simp add: extends_def group_ids_def updateScore_frame)

lemma extends_apply_op:
  assumes "store_inv d"
  shows "extends d (apply_op op d)"
proof (cases op)
  case (ApplyDelta n operation)
  show ?thesis unfolding ApplyDelta apply_op.simps fst_upvote_step
    using group_ids_ensure [OF assms] extends_updateScore by (rule extends_trans)
qed (simp_all add: group_ids_ensure extends_link extends_unlink extends_refl assms)

lemma extends_run_ops: "store_inv d \<Longrightarrow> extends d (run_ops d ops)"
proof (induction ops arbitrary: d)
  case Nil
  show ?case by (simp add: run_ops_def extends_refl)
next
  case (Cons op ops)
  have "extends d (apply_op op d)" using Cons.prems by (rule extends_apply_op)
  moreover have "extends (apply_op op d) (run_ops (apply_op op d) ops)"
    using Cons.prems by (intro Cons.IH store_inv_apply_op)
  ultimately show ?case unfolding run_ops_def fold_simps by (rule extends_trans)
qed

lemma alias_row_unique:
  assumes "distinct (map fst (aliases d))" and "(n, g) \<in> set (aliases d)"
    and "(n, g') \<in> set (aliases d)"
  shows "g = g'"
proof -
  have "map_of (aliases d) n = Some g" using assms(1,2) by simp
  moreover have "map_of (aliases d) n = Some g'" using assms(1,3) by simp
  ultimately show ?thesis by simp
qed

lemma alias_row_getGroupID:
  assumes "distinct (map fst (aliases d))"
  shows "((n, g) \<in> set (aliases d)) = (n \<in> set (map fst (aliases d)) \<and> getGroupID d n = g)"
proof
  assume r: "(n, g) \<in> set (aliases d)"
  then have "map_of (aliases d) n = Some g" using assms by simp
  then have "getGroupID d n = g" by (simp add: getGroupID_conv)
  moreover have "n \<in> set (map fst (aliases d))" using r by force
  ultimately show "n \<in> set (map fst (aliases d)) \<and> getGroupID d n = g" by simp
next
  assume a: "n \<in> set (map fst (aliases d)) \<and> getGroupID d n = g"
  then obtain g0 where r: "(n, g0) \<in> set (aliases d)" by auto
  then have "map_of (aliases d) n = Some g0" using assms by simp
  then have "getGroupID d n = g0" by (simp add: getGroupID_conv)
  then show "(n, g) \<in> set (aliases d)" using a r by simp
qed

subsection \<open>The aggregate score\<close>

lemma filter_key_distinct:
  assumes "distinct (map fst al)"
  shows "filter (\<lambda>(j, g). j = i \<and> g = gid) al =
     (if map_of al i = Some gid then [(i, gid)] else [])"
  using assms
proof (induction al)
  case Nil
  show ?case by simp
next
  case (Cons x al)
  obtain j g where x: "x = (j, g)" by (cases x)
  have d: "distinct (map fst al)" and j: "j \<notin> set (map fst al)"
    using Cons.prems by (simp_all add: x)
  have IH: "filter (\<lambda>(j, g). j = i \<and> g = gid) al =
     (if map_of al i = Some gid then [(i, gid)] else [])"
    using d by (rule Cons.IH)
  show ?case
  proof (cases "j = i")
    case True
    then have "map_of al i = None" using j by (simp add: map_of_eq_None_iff)
    then show ?thesis using True IH by (simp add: x)
  next
    case False
    then show ?thesis using IH by (simp add: x)
  qed
qed

lemma concat_map_if:
  "concat (map (\<lambda>x. if P x then [f x] else []) xs) = map f (filter P xs)"
  by (induction xs) simp_all

lemma joined_scores_conv:
  assumes "distinct (map fst (aliases d))"
  shows "joined_scores d gid =
     map snd (filter (\<lambda>r. map_of (aliases d) (fst r) = Some gid) (tallies d))"
proof -
  have eq: "(\<lambda>(i, s). map (\<lambda>_. s) (filter (\<lambda>(j, g). j = i \<and> g = gid) (aliases d))) =
        (\<lambda>r. if map_of (aliases d) (fst r) = Some gid then [snd r] else [])"
    by (rule ext) (simp add: filter_key_distinct [OF assms] split: prod.splits)
  show ?thesis unfolding joined_scores_def eq concat_map_if ..
qed

lemma getScore_row:
  assumes "distinct (map fst (tallies d))" and "r \<in> set (tallies d)"
  shows "snd r = getScore d (fst r)"
proof -
  obtain i s where r: "r = (i, s)" by (cases r)
  then have "map_of (tallies d) i = Some s" using assms by simp
  then show ?thesis by (simp add: r getScore_conv)
qed

lemma group_members_set:
  assumes "distinct (map fst (aliases d))"
  shows "set (group_members d gid) = {n. map_of (aliases d) n = Some gid}"
proof -
  have "(n \<in> set (group_members d gid)) = (map_of (aliases d) n = Some gid)" for n
  proof -
    have "(n \<in> set (group_members d gid)) = ((n, gid) \<in> set (aliases d))"
      by (force simp: group_members_def)
    also have "\<dots> = (map_of (aliases d) n = Some gid)"
      using assms by (auto dest: map_of_SomeD)
    finally show ?thesis .
  qed
  then show ?thesis by blast
qed

lemma group_members_distinct:
  assumes "distinct (map fst (aliases d))"
  shows "distinct (group_members d gid)"
  unfolding group_members_def using assms by (rule distinct_map_filter)

lemma sum_joined_scores:
  assumes "store_inv d"
  shows "sum_list (joined_scores d gid) = sum_list (map (getScore d) (group_members d gid))"
proof -
  have dt: "distinct (map fst (tallies d))" and da: "distinct (map fst (aliases d))"
    and keys: "set (map fst (tallies d)) = set (map fst (aliases d))"
    using assms by (simp_all add: store_inv_def)
  let ?P = "\<lambda>n. map_of (aliases d) n = Some gid"
  let ?rows = "filter (\<lambda>r. ?P (fst r)) (tallies d)"
  have "joined_scores d gid = map snd ?rows" using da by (rule joined_scores_conv)
  also have "\<dots> = map (\<lambda>r. getScore d (fst r)) ?rows"
    by (rule map_cong [OF refl]) (simp add: getScore_row [OF dt])
  also have "\<dots> = map (getScore d) (map fst ?rows)" by simp
  finally have j: "joined_scores d gid = map (getScore d) (map fst ?rows)" .
  have fr: "map fst ?rows = filter ?P (map fst (tallies d))"
    by (simp add: filter_map comp_def)
  have d1: "distinct (map fst ?rows)" unfolding fr using dt by simp
  have s1: "set (map fst ?rows) = {n. ?P n}"
  proof -
    have "?P n \<Longrightarrow> n \<in> set (map fst (tallies d))" for n
      unfolding keys by (metis map_of_eq_None_iff option.distinct(1) set_map)
    then show ?thesis unfolding fr by auto
  qed
  have "sum_list (joined_scores d gid) = sum (getScore d) (set (map fst ?rows))"
    unfolding j using d1 by (rule sum_list_distinct_conv_sum_set)
  also have "\<dots> = sum (getScore d) (set (group_members d gid))"
    unfolding s1 group_members_set [OF da] ..
  also have "\<dots> = sum_list (map (getScore d) (group_members d gid))"
    using group_members_distinct [OF da] by (rule sum_list_distinct_conv_sum_set [symmetric])
  finally show ?thesis .
qed

lemma getTotalScore_conv:
  "getTotalScore d n =
     (if getGroupID d n = 0 then getScore d n else sum_list (joined_scores d (getGroupID d n)))"
  by (simp add: getTotalScore_def Let_def select_sum_score_def split: list.splits)

lemma getTotalScore_sum:
  assumes "store_inv d" and "n \<in> created d"
  shows "getTotalScore d n = sum_list (map (getScore d) (group_members d (getGroupID d n)))"
proof -
  have "getGroupID d n \<noteq> 0"
    using assms getGroupID_zero_iff [OF assms(1)] by (simp add: created_aliases)
  then show ?thesis by (simp add: getTotalScore_conv sum_joined_scores [OF assms(1)])
qed

lemma getLinkedItems_conv:
  assumes "store_inv d" and "n \<in> created d"
  shows "getLinkedItems d n = filter (\<lambda>x. x \<noteq> n) (group_members d (getGroupID d n))"
proof -
  have "getGroupID d n \<noteq> 0"
    using assms getGroupID_zero_iff [OF assms(1)] by (simp add: created_aliases)
  moreover have "map fst (filter (\<lambda>(i, g). g = gid \<and> i \<noteq> n) al) =
      filter (\<lambda>x. x \<noteq> n) (map fst (filter (\<lambda>(i, g). g = gid) al))" for gid and al :: "(string \<times> int) list"
    by (induction al) auto
  ultimately show ?thesis
    by (simp add: getLinkedItems_def Let_def select_linked_def group_members_def del: map_map)
qed

lemma not_created:
  assumes "store_inv d" and "n \<notin> created d"
  shows "getScore d n = 0" and "getGroupID d n = 0" and "getTotalScore d n = 0"
    and "getLinkedItems d n = []"
proof -
  have "map_of (tallies d) n = None"
    using assms(2) by (simp add: created_def map_of_eq_None_iff)
  then show s: "getScore d n = 0" by (simp add: getScore_conv)
  show g: "getGroupID d n = 0"
    using assms getGroupID_zero_iff [OF assms(1)] by (simp add: created_aliases)
  show "getTotalScore d n = 0" using s g by (simp add: getTotalScore_conv)
  show "getLinkedItems d n = []" using g by (simp add: getLinkedItems_def)
qed


subsection \<open>Group identifiers after link and unlink\<close>

lemma created_ensure:
  assumes "store_inv d"
  shows "created (ensureItemExists d n) = insert n (created d)"
  using tallies_keys_ensure [OF assms] by (simp add: created_def)

lemma seq_ensure:
  assumes "store_inv d"
  shows "sqlite_sequence (ensureItemExists d n) =
     (if n \<in> created d then sqlite_sequence d else sqlite_sequence d + 1)"
proof (cases "n \<in> set (map fst (tallies d))")
  case True
  then show ?thesis by (simp add: ensure_existing created_def)
next
  case False
  show ?thesis unfolding ensure_new [OF assms False] using False by (simp add: created_def)
qed

lemma created_ensure_both:
  assumes "store_inv d"
  shows "created (ensure_both d a b) = insert b (insert a (created d))"
  unfolding ensure_both_def
  by (simp add: created_ensure [OF store_inv_ensure [OF assms]] created_ensure [OF assms])

lemma ensure_both_existing:
  assumes "a \<in> created d" and "b \<in> created d"
  shows "ensure_both d a b = d"
  using assms by (simp add: ensure_both_def created_def ensure_existing)

lemma getGroupID_ensure_both:
  assumes "store_inv d"
  shows "getGroupID (ensure_both d a b) m =
     (if m \<in> created d then getGroupID d m
      else if m = a then sqlite_sequence d + 1
      else if m = b then (if a \<in> created d then sqlite_sequence d + 1 else sqlite_sequence d + 2)
      else 0)"
proof -
  let ?d1 = "ensureItemExists d a"
  have inv1: "store_inv ?d1" using assms by (rule store_inv_ensure)
  have c1: "created ?d1 = insert a (created d)" using assms by (rule created_ensure)
  have s1: "sqlite_sequence ?d1 = (if a \<in> created d then sqlite_sequence d else sqlite_sequence d + 1)"
    using assms by (rule seq_ensure)
  have g1: "getGroupID ?d1 m = (if m = a \<and> a \<notin> created d then sqlite_sequence d + 1 else getGroupID d m)"
    using getGroupID_ensure [OF assms] by (simp add: created_def)
  have g2: "getGroupID (ensure_both d a b) m =
      (if m = b \<and> b \<notin> created ?d1 then sqlite_sequence ?d1 + 1 else getGroupID ?d1 m)"
    unfolding ensure_both_def using getGroupID_ensure [OF inv1] by (simp add: created_def)
  have z: "m \<notin> created d \<Longrightarrow> getGroupID d m = 0"
    using getGroupID_zero_iff [OF assms] by (simp add: created_aliases [OF assms])
  show ?thesis unfolding g2 g1 c1 s1 using z by auto
qed

lemma getGroupID_le_seq:
  assumes "store_inv d" and "m \<in> created d"
  shows "1 \<le> getGroupID d m" and "getGroupID d m \<le> sqlite_sequence d"
  using getGroupID_bounds [OF assms(1)] assms(2) by (simp_all add: created_aliases [OF assms(1)])

lemma getGroupID_nonzero_created:
  assumes "store_inv d"
  shows "(getGroupID d m \<noteq> 0) = (m \<in> created d)"
  using getGroupID_zero_iff [OF assms] by (simp add: created_aliases [OF assms])

lemma ensure_both_differ:
  assumes "store_inv d" and "getGroupID d a \<noteq> getGroupID d b"
  shows "getGroupID (ensure_both d a b) a \<noteq> getGroupID (ensure_both d a b) b"
proof -
  have ab: "a \<in> created d \<or> b \<in> created d"
    using assms getGroupID_nonzero_created [OF assms(1)] by metis
  have la: "a \<in> created d \<Longrightarrow> getGroupID d a \<le> sqlite_sequence d"
    and lb: "b \<in> created d \<Longrightarrow> getGroupID d b \<le> sqlite_sequence d"
    using getGroupID_le_seq [OF assms(1)] by blast+
  show ?thesis
    unfolding getGroupID_ensure_both [OF assms(1)] using ab la lb assms(2) by auto
qed

lemma tallies_unlink: "tallies (unlinkItems d a b) = tallies (ensure_both d a b)"
  by (simp add: unlinkItems_def ensure_both_def Let_def insert_group_def update_alias_item_def)

lemma tallies_link: "tallies (linkItems d a b) = tallies (ensure_both d a b)"
  by (simp add: linkItems_conv Let_def)

lemma created_link: "created (linkItems d a b) = created (ensure_both d a b)"
  by (simp add: created_def tallies_link)

lemma created_unlink: "created (unlinkItems d a b) = created (ensure_both d a b)"
  by (simp add: created_def tallies_unlink)

lemma getScore_ensure:
  assumes "store_inv d"
  shows "getScore (ensureItemExists d n) m = getScore d m"
proof (cases "n \<in> set (map fst (tallies d))")
  case True
  then show ?thesis by (simp add: ensure_existing)
next
  case False
  then have "map_of (tallies d) n = None" by (simp add: map_of_eq_None_iff)
  then show ?thesis unfolding ensure_new [OF assms False]
    by (auto simp: getScore_conv map_add_def split: option.splits)
qed

lemma getScore_ensure_both:
  assumes "store_inv d"
  shows "getScore (ensure_both d a b) m = getScore d m"
  unfolding ensure_both_def
  by (simp add: getScore_ensure [OF store_inv_ensure [OF assms]] getScore_ensure [OF assms])

lemma getScore_tallies: "tallies d = tallies d' \<Longrightarrow> getScore d m = getScore d' m"
  by (simp add: getScore_conv)

lemma group_ids_getGroupID:
  assumes "store_inv d"
  shows "(g \<in> group_ids d) = (\<exists>n \<in> created d. getGroupID d n = g)"
proof -
  have da: "distinct (map fst (aliases d))" using assms by (simp add: store_inv_def)
  show ?thesis
    unfolding in_group_ids alias_row_getGroupID [OF da] created_aliases [OF assms] by blast
qed

lemma store_inv_group_row:
  "store_inv d \<Longrightarrow> g \<in> set (groups d) \<Longrightarrow> 1 \<le> g \<and> g \<le> sqlite_sequence d"
  by (auto simp: store_inv_def list_all_iff)

lemma distinct_set_single:
  assumes "distinct xs" and "set xs = {x}"
  shows "xs = [x]"
proof (cases xs)
  case Nil
  then show ?thesis using assms(2) by simp
next
  case (Cons y ys)
  have y: "y = x" using assms(2) Cons by auto
  have "set ys \<subseteq> {x}" using assms(2) Cons by auto
  moreover have "x \<notin> set ys" using assms(1) Cons y by simp
  ultimately have "ys = []" by (cases ys) auto
  then show ?thesis using Cons y by simp
qed

lemma group_members_created:
  assumes "store_inv d"
  shows "set (group_members d g) = {n \<in> created d. getGroupID d n = g}"
proof -
  have da: "distinct (map fst (aliases d))" using assms by (simp add: store_inv_def)
  have "((n, g) \<in> set (aliases d)) = (n \<in> created d \<and> getGroupID d n = g)" for n
    unfolding alias_row_getGroupID [OF da] created_aliases [OF assms] ..
  moreover have "(n \<in> set (group_members d g)) = ((n, g) \<in> set (aliases d))" for n
    by (force simp: group_members_def)
  ultimately show ?thesis by blast
qed

lemma linked_items_set:
  assumes "store_inv d"
  shows "set (getLinkedItems d n) = {y \<in> created d. y \<noteq> n \<and> n \<in> created d \<and> getGroupID d y = getGroupID d n}"
proof (cases "n \<in> created d")
  case True
  show ?thesis
    unfolding getLinkedItems_conv [OF assms True] using True
    by (auto simp: group_members_created [OF assms])
next
  case False
  then show ?thesis using not_created(4) [OF assms False] by simp
qed

lemma getGroupID_unlink_self:
  assumes "store_inv d"
  shows "getGroupID (unlinkItems d x x) n =
     (if n = x then sqlite_sequence (ensureItemExists d x) + 1 else getGroupID d n)"
proof -
  have inv1: "store_inv (ensureItemExists d x)" using assms by (rule store_inv_ensure)
  have "x \<in> created (ensureItemExists d x)" by (simp add: created_ensure [OF assms])
  then have e: "ensure_both d x x = ensureItemExists d x"
    by (simp add: ensure_both_def ensure_existing created_def)
  have z: "n \<notin> created d \<Longrightarrow> getGroupID d n = 0"
    using getGroupID_nonzero_created [OF assms] by blast
  have "n \<noteq> x \<Longrightarrow> getGroupID (ensure_both d x x) n = getGroupID d n"
    using z by (simp add: getGroupID_ensure_both [OF assms])
  then show ?thesis
    using getGroupID_unlink [OF assms, of x x n] by (simp add: Let_def e)
qed

lemma getScore_unlink:
  assumes "store_inv d"
  shows "getScore (unlinkItems d x y) n = getScore d n"
proof -
  have "getScore (unlinkItems d x y) n = getScore (ensure_both d x y) n"
    by (rule getScore_tallies) (rule tallies_unlink)
  then show ?thesis by (simp add: getScore_ensure_both [OF assms])
qed

lemma link_both_created:
  assumes "store_inv d"
  shows "a \<in> created (linkItems d a b)" and "b \<in> created (linkItems d a b)"
  by (simp_all add: created_link created_ensure_both [OF assms])

lemma link_same_group:
  assumes "store_inv d"
  shows "getGroupID (linkItems d a b) a = getGroupID (ensure_both d a b) a"
    and "getGroupID (linkItems d a b) b = getGroupID (ensure_both d a b) a"
  by (simp_all add: getGroupID_link [OF assms] Let_def)

lemma new_item_alone:
  assumes "store_inv d" and "x \<notin> created d" and "x = a \<or> x = b"
  shows "sqlite_sequence d < getGroupID (ensure_both d a b) x"
    and "group_members (ensure_both d a b) (getGroupID (ensure_both d a b) x) = [x]"
    and "getScore (ensure_both d a b) x = 0"
proof -
  let ?e = "ensure_both d a b"
  have inve: "store_inv ?e" using assms(1) by (rule store_inv_ensure_both)
  have g: "getGroupID ?e m =
     (if m \<in> created d then getGroupID d m
      else if m = a then sqlite_sequence d + 1
      else if m = b then (if a \<in> created d then sqlite_sequence d + 1 else sqlite_sequence d + 2)
      else 0)" for m
    using assms(1) by (rule getGroupID_ensure_both)
  have old: "m \<in> created d \<Longrightarrow> getGroupID d m \<le> sqlite_sequence d" for m
    using getGroupID_le_seq [OF assms(1)] by blast
  show above: "sqlite_sequence d < getGroupID ?e x"
    using assms(2,3) by (auto simp: g)
  have ce: "created ?e = insert b (insert a (created d))"
    using assms(1) by (rule created_ensure_both)
  have "m = x" if "m \<in> created ?e" and "getGroupID ?e m = getGroupID ?e x" for m
  proof (cases "m \<in> created d")
    case True
    then have "getGroupID ?e m \<le> sqlite_sequence d" using old by (simp add: g)
    then show ?thesis using that(2) above by simp
  next
    case False
    then show ?thesis using that assms(2,3) unfolding ce g by (auto split: if_splits)
  qed
  moreover have "x \<in> created ?e" using assms(3) unfolding ce by auto
  ultimately have "set (group_members ?e (getGroupID ?e x)) = {x}"
    unfolding group_members_created [OF inve] by auto
  moreover have "distinct (group_members ?e (getGroupID ?e x))"
    using inve by (intro group_members_distinct) (simp add: store_inv_def)
  ultimately show "group_members ?e (getGroupID ?e x) = [x]" by (intro distinct_set_single)
  show "getScore ?e x = 0"
    using not_created(1) [OF assms(1,2)] by (simp add: getScore_ensure_both [OF assms(1)])
qed

lemma link_retires_second:
  assumes "store_inv d"
    and "getGroupID (ensure_both d a b) a \<noteq> getGroupID (ensure_both d a b) b"
  shows "getGroupID (ensure_both d a b) b \<notin> group_ids (linkItems d a b)"
    and "getGroupID (ensure_both d a b) b \<notin> set (groups (linkItems d a b))"
proof -
  let ?e = "ensure_both d a b" and ?l = "linkItems d a b"
  have invl: "store_inv ?l" using assms(1) by (rule store_inv_link)
  have g: "getGroupID ?l n =
      (if getGroupID ?e n = getGroupID ?e b then getGroupID ?e a else getGroupID ?e n)" for n
    by (simp add: getGroupID_link [OF assms(1)] Let_def)
  show "getGroupID ?e b \<notin> group_ids ?l"
  proof
    assume "getGroupID ?e b \<in> group_ids ?l"
    then obtain n where "getGroupID ?l n = getGroupID ?e b"
      unfolding group_ids_getGroupID [OF invl] by blast
    then show False using assms(2) unfolding g by (simp split: if_splits)
  qed
  show "getGroupID ?e b \<notin> set (groups ?l)"
    using assms(2) by (simp add: linkItems_conv Let_def)
qed

lemma link_noop:
  "getGroupID (ensure_both d a b) a = getGroupID (ensure_both d a b) b \<Longrightarrow>
   linkItems d a b = ensure_both d a b"
  by (simp add: linkItems_conv Let_def)

lemma link_idempotent:
  assumes "store_inv d"
  shows "linkItems (linkItems d a b) a b = linkItems d a b"
proof -
  let ?l = "linkItems d a b"
  have a: "a \<in> created ?l" and b: "b \<in> created ?l"
    using assms by (rule link_both_created)+
  have e: "ensure_both ?l a b = ?l" using a b by (rule ensure_both_existing)
  have "getGroupID ?l a = getGroupID ?l b" by (simp add: link_same_group [OF assms])
  then show ?thesis using link_noop [of ?l a b] by (simp add: e)
qed

lemma link_chain:
  assumes "store_inv d"
  shows "getGroupID (linkItems (linkItems d a b) b c) a = getGroupID (linkItems d a b) a"
    and "getGroupID (linkItems (linkItems d a b) b c) b = getGroupID (linkItems d a b) a"
    and "getGroupID (linkItems (linkItems d a b) b c) c = getGroupID (linkItems d a b) a"
    and "getGroupID (linkItems d a b) a \<noteq> 0"
proof -
  let ?l = "linkItems d a b"
  let ?e = "ensure_both ?l b c"
  have invl: "store_inv ?l" using assms by (rule store_inv_link)
  have a: "a \<in> created ?l" and b: "b \<in> created ?l"
    using assms by (rule link_both_created)+
  have same: "getGroupID ?l b = getGroupID ?l a" by (simp add: link_same_group [OF assms])
  have ea: "getGroupID ?e a = getGroupID ?l a" and eb: "getGroupID ?e b = getGroupID ?l a"
    using a b same by (simp_all add: getGroupID_ensure_both [OF invl])
  have g: "getGroupID (linkItems ?l b c) n =
      (if getGroupID ?e n = getGroupID ?e c then getGroupID ?e b else getGroupID ?e n)" for n
    by (simp add: getGroupID_link [OF invl] Let_def)
  show "getGroupID (linkItems ?l b c) a = getGroupID ?l a" by (simp add: g ea eb)
  show "getGroupID (linkItems ?l b c) b = getGroupID ?l a" by (simp add: g ea eb)
  show "getGroupID (linkItems ?l b c) c = getGroupID ?l a" by (simp add: g ea eb)
  show "getGroupID ?l a \<noteq> 0" using a getGroupID_nonzero_created [OF invl] by blast
qed

subsection \<open>Messages as sequences of operations\<close>

lemma handleMessage_guard_open:
  assumes "take 1 channel \<noteq> ''#'' \<or> activeChannels tbot channel"
  shows "handleMessage tbot channel nick m =
     tbot\<lparr>db := fst (process_line channel (db tbot, conn tbot) m),
          conn := snd (process_line channel (db tbot, conn tbot) m)\<rparr>"
  using assms
  by (auto simp: handleMessage_def process_line_def Let_def split: prod.splits)

lemma handleMessages_guard_open:
  assumes "take 1 channel \<noteq> ''#'' \<or> activeChannels tbot channel"
  shows "handleMessages tbot channel nick ms =
     tbot\<lparr>db := fst (fold (\<lambda>m st. process_line channel st m) ms (db tbot, conn tbot)),
          conn := snd (fold (\<lambda>m st. process_line channel st m) ms (db tbot, conn tbot))\<rparr>"
  using assms
proof (induction ms arbitrary: tbot)
  case Nil
  show ?case by (simp add: handleMessages_def)
next
  case (Cons m ms)
  let ?b = "handleMessage tbot channel nick m"
  have b: "?b = tbot\<lparr>db := fst (process_line channel (db tbot, conn tbot) m),
          conn := snd (process_line channel (db tbot, conn tbot) m)\<rparr>"
    using Cons.prems by (rule handleMessage_guard_open)
  have guard: "take 1 channel \<noteq> ''#'' \<or> activeChannels ?b channel"
    using Cons.prems by (simp add: b)
  have "handleMessages tbot channel nick (m # ms) = handleMessages ?b channel nick ms"
    by (simp add: handleMessages_def)
  also have "\<dots> = ?b\<lparr>db := fst (fold (\<lambda>m st. process_line channel st m) ms (db ?b, conn ?b)),
          conn := snd (fold (\<lambda>m st. process_line channel st m) ms (db ?b, conn ?b))\<rparr>"
    using guard by (rule Cons.IH)
  finally show ?case by (simp add: b)
qed

lemma handleMessages_single_conv:
  "handleMessages_single tbot nick ms =
     tbot\<lparr>single_db := fst (fold (\<lambda>m st. handle_commands (single_channel tbot) st (TrimSpace m)) ms
                           (single_db tbot, single_conn tbot)),
          single_conn := snd (fold (\<lambda>m st. handle_commands (single_channel tbot) st (TrimSpace m)) ms
                           (single_db tbot, single_conn tbot))\<rparr>"
proof (induction ms arbitrary: tbot)
  case Nil
  show ?case by (simp add: handleMessages_single_def)
next
  case (Cons m ms)
  let ?b = "handleMessage_single tbot nick m"
  have b: "?b = tbot\<lparr>single_db := fst (handle_commands (single_channel tbot) (single_db tbot, single_conn tbot) (TrimSpace m)),
          single_conn := snd (handle_commands (single_channel tbot) (single_db tbot, single_conn tbot) (TrimSpace m))\<rparr>"
    by (simp add: handleMessage_single_def Let_def split: prod.splits)
  have "handleMessages_single tbot nick (m # ms) = handleMessages_single ?b nick ms"
    by (simp add: handleMessages_single_def)
  also have "\<dots> = ?b\<lparr>single_db := fst (fold (\<lambda>m st. handle_commands (single_channel ?b) st (TrimSpace m)) ms
                           (single_db ?b, single_conn ?b)),
          single_conn := snd (fold (\<lambda>m st. handle_commands (single_channel ?b) st (TrimSpace m)) ms
                           (single_db ?b, single_conn ?b))\<rparr>"
    by (rule Cons.IH)
  finally show ?case by (simp add: b)
qed

lemma scenario_prefixes:
  "snd (fold (\<lambda>m st. process_line channel st m) (take k scenario_lines) (empty_db, [])) =
     map (Pair channel) (take k scenario_replies)"
proof -
  consider "k = 0" | "k = 1" | "k = 2" | "k = 3" | "k = 4" | "5 \<le> k" by linarith
  then show ?thesis
  proof cases
    case 1
    show ?thesis unfolding 1 by code_simp
  next
    case 2
    show ?thesis unfolding 2 by code_simp
  next
    case 3
    show ?thesis unfolding 3 by code_simp
  next
    case 4
    show ?thesis unfolding 4 by code_simp
  next
    case 5
    show ?thesis unfolding 5 by code_simp
  next
    case 6
    then have t: "take k scenario_lines = scenario_lines" "take k scenario_replies = scenario_replies"
      by (simp_all add: scenario_lines_def scenario_replies_def)
    show ?thesis unfolding t by code_simp
  qed
qed

lemma scenario_prefixes_single:
  "snd (fold (\<lambda>m st. handle_commands channel st (TrimSpace m)) (take k scenario_lines) (empty_db, [])) =
     map (Pair channel) (take k scenario_replies)"
proof -
  consider "k = 0" | "k = 1" | "k = 2" | "k = 3" | "k = 4" | "5 \<le> k" by linarith
  then show ?thesis
  proof cases
    case 1
    show ?thesis unfolding 1 by code_simp
  next
    case 2
    show ?thesis unfolding 2 by code_simp
  next
    case 3
    show ?thesis unfolding 3 by code_simp
  next
    case 4
    show ?thesis unfolding 4 by code_simp
  next
    case 5
    show ?thesis unfolding 5 by code_simp
  next
    case 6
    then have t: "take k scenario_lines = scenario_lines" "take k scenario_replies = scenario_replies"
      by (simp_all add: scenario_lines_def scenario_replies_def)
    show ?thesis unfolding t by code_simp
  qed
qed

lemma fst_upvote_step_op:
  "fst (upvote_step t st m) = apply_op (ApplyDelta (fst m) (snd m)) (fst st)"
  by (simp add: upvote_step_def Let_def)

lemma run_ops_Cons: "run_ops d (op # ops) = run_ops (apply_op op d) ops"
  by (simp add: run_ops_def)

lemma run_ops_Nil: "run_ops d [] = d"
  by (simp add: run_ops_def)

lemma run_ops_append: "run_ops d (ops @ ops') = run_ops (run_ops d ops) ops'"
  by (simp add: run_ops_def)

lemma fst_upvote_loop:
  "fst (upvote_loop t st ms) = run_ops (fst st) (map (\<lambda>m. ApplyDelta (fst m) (snd m)) ms)"
proof (induction ms arbitrary: st)
  case Nil
  show ?case by (simp add: run_ops_Nil)
next
  case (Cons m ms)
  have "fst (upvote_loop t st (m # ms)) = fst (upvote_loop t (upvote_step t st m) ms)"
    by simp
  also have "\<dots> = run_ops (fst (upvote_step t st m)) (map (\<lambda>m. ApplyDelta (fst m) (snd m)) ms)"
    by (rule Cons.IH)
  also have "\<dots> = run_ops (apply_op (ApplyDelta (fst m) (snd m)) (fst st))
      (map (\<lambda>m. ApplyDelta (fst m) (snd m)) ms)"
    by (simp only: fst_upvote_step_op)
  also have "\<dots> = run_ops (fst st) (map (\<lambda>m. ApplyDelta (fst m) (snd m)) (m # ms))"
    by (simp only: run_ops_Cons list.map)
  finally show ?case .
qed

lemma handle_commands_ops:
  "fst (handle_commands t st message) = run_ops (fst st) (message_ops message)"
  by (simp add: handle_commands_def message_ops_def Let_def fst_upvote_loop run_ops_Cons
      run_ops_Nil split: option.splits prod.splits)

lemma process_line_ops:
  "\<exists>ops. fst (process_line channel st m) = run_ops (fst st) ops"
proof (cases "helpRegex (ToLower (TrimSpace m))")
  case True
  then have "fst (process_line channel st m) = run_ops (fst st) []"
    by (simp add: process_line_def run_ops_Nil)
  then show ?thesis ..
next
  case False
  then have "fst (process_line channel st m) = run_ops (fst st) (message_ops (TrimSpace m))"
    by (simp add: process_line_def handle_commands_ops)
  then show ?thesis ..
qed

lemma handleMessage_ops:
  "\<exists>ops. db (handleMessage tbot channel nick m) = run_ops (db tbot) ops"
proof (cases "take 1 channel \<noteq> ''#'' \<or> activeChannels tbot channel")
  case True
  obtain ops where "fst (process_line channel (db tbot, conn tbot) m) = run_ops (db tbot) ops"
    using process_line_ops [of channel "(db tbot, conn tbot)" m] by auto
  then have "db (handleMessage tbot channel nick m) = run_ops (db tbot) ops"
    by (simp add: handleMessage_guard_open [OF True])
  then show ?thesis ..
next
  case False
  then have "db (handleMessage tbot channel nick m) = run_ops (db tbot) []"
    by (simp add: handleMessage_def Let_def run_ops_Nil)
  then show ?thesis ..
qed

lemma handleMessages_ops:
  "\<exists>ops. db (handleMessages tbot channel nick ms) = run_ops (db tbot) ops"
proof (induction ms arbitrary: tbot)
  case Nil
  have "db (handleMessages tbot channel nick []) = run_ops (db tbot) []"
    by (simp add: handleMessages_def run_ops_Nil)
  then show ?case ..
next
  case (Cons m ms)
  let ?b = "handleMessage tbot channel nick m"
  obtain ops1 where o1: "db ?b = run_ops (db tbot) ops1"
    using handleMessage_ops by blast
  obtain ops2 where o2: "db (handleMessages ?b channel nick ms) = run_ops (db ?b) ops2"
    using Cons.IH by blast
  have "db (handleMessages tbot channel nick (m # ms)) = run_ops (db tbot) (ops1 @ ops2)"
    using o1 o2 by (simp add: handleMessages_def run_ops_append)
  then show ?case ..
qed

lemma handleMessages_single_ops:
  "\<exists>ops. single_db (handleMessages_single tbot nick ms) = run_ops (single_db tbot) ops"
proof (induction ms arbitrary: tbot)
  case Nil
  have "single_db (handleMessages_single tbot nick []) = run_ops (single_db tbot) []"
    by (simp add: handleMessages_single_def run_ops_Nil)
  then show ?case ..
next
  case (Cons m ms)
  let ?b = "handleMessage_single tbot nick m"
  have "single_db ?b =
      fst (handle_commands (single_channel tbot) (single_db tbot, single_conn tbot) (TrimSpace m))"
    by (simp add: handleMessage_single_def Let_def split: prod.splits)
  then have o1: "single_db ?b = run_ops (single_db tbot) (message_ops (TrimSpace m))"
    by (simp add: handle_commands_ops)
  obtain ops2 where o2: "single_db (handleMessages_single ?b nick ms) = run_ops (single_db ?b) ops2"
    using Cons.IH by blast
  have "single_db (handleMessages_single tbot nick (m # ms)) =
      run_ops (single_db tbot) (message_ops (TrimSpace m) @ ops2)"
    using o1 o2 by (simp add: handleMessages_single_def run_ops_append)
  then show ?case ..
qed

section \<open>The claims\<close>

text \<open>
  \<^bold>\<open>C1.\<close> In a store that satisfies \<open>store_inv\<close> (every store reached from the empty
  one does), let \<open>a\<close> exist and share its group identifier with \<open>b\<close>. Then
  \<open>unlinkItems\<close> gives \<open>b\<close> the identifier \<open>sqlite_sequence + 1\<close>, which no item holds
  and which is no row of \<open>groups\<close>, and every item other than \<open>b\<close> keeps its identifier.
  So for \<open>a \<noteq> b\<close> the item \<open>a\<close> keeps its identifier and differs from \<open>b\<close>
  afterwards, and a third member \<open>c\<close> of the group stays with \<open>a\<close>, apart from \<open>b\<close>.
  If the identifiers of \<open>a\<close> and \<open>b\<close> differ, \<open>unlinkItems\<close> does no more than create
  the missing ones of the two: every existing item keeps its identifier, and nothing at
  all changes when both exist.
\<close>

theorem unlink_moves_only_second_item:
  assumes "store_inv d"
  shows "(a \<in> created d \<and> getGroupID d a = getGroupID d b \<longrightarrow>
            getGroupID (unlinkItems d a b) b = sqlite_sequence d + 1 \<and>
            getGroupID (unlinkItems d a b) b \<notin> group_ids d \<and>
            getGroupID (unlinkItems d a b) b \<notin> set (groups d) \<and>
            (\<forall>x. x \<noteq> b \<longrightarrow> getGroupID (unlinkItems d a b) x = getGroupID d x) \<and>
            (a \<noteq> b \<longrightarrow> getGroupID (unlinkItems d a b) a = getGroupID d a \<and>
                     getGroupID (unlinkItems d a b) a \<noteq> getGroupID (unlinkItems d a b) b) \<and>
            (\<forall>c. a \<noteq> b \<and> c \<noteq> b \<and> getGroupID d c = getGroupID d a \<longrightarrow>
                 getGroupID (unlinkItems d a b) a = getGroupID (unlinkItems d a b) c \<and>
                 getGroupID (unlinkItems d a b) c \<noteq> getGroupID (unlinkItems d a b) b)) \<and>
         (getGroupID d a \<noteq> getGroupID d b \<longrightarrow>
            unlinkItems d a b = ensure_both d a b \<and>
            (\<forall>x \<in> created d. getGroupID (unlinkItems d a b) x = getGroupID d x) \<and>
            (a \<in> created d \<and> b \<in> created d \<longrightarrow> unlinkItems d a b = d))"
proof -
  let ?u = "unlinkItems d a b"
  have shared: "getGroupID ?u b = sqlite_sequence d + 1 \<and>
            getGroupID ?u b \<notin> group_ids d \<and>
            getGroupID ?u b \<notin> set (groups d) \<and>
            (\<forall>x. x \<noteq> b \<longrightarrow> getGroupID ?u x = getGroupID d x) \<and>
            (a \<noteq> b \<longrightarrow> getGroupID ?u a = getGroupID d a \<and> getGroupID ?u a \<noteq> getGroupID ?u b) \<and>
            (\<forall>c. a \<noteq> b \<and> c \<noteq> b \<and> getGroupID d c = getGroupID d a \<longrightarrow>
                 getGroupID ?u a = getGroupID ?u c \<and> getGroupID ?u c \<noteq> getGroupID ?u b)"
    if a: "a \<in> created d" and eq: "getGroupID d a = getGroupID d b"
  proof -
    have b: "b \<in> created d"
      using a eq getGroupID_nonzero_created [OF assms] by metis
    have e: "ensure_both d a b = d" using a b by (rule ensure_both_existing)
    have g: "getGroupID ?u n = (if n = b then sqlite_sequence d + 1 else getGroupID d n)" for n
      using eq by (simp add: getGroupID_unlink [OF assms] e)
    have new: "getGroupID ?u b = sqlite_sequence d + 1" by (simp add: g)
    have not_ref: "sqlite_sequence d + 1 \<notin> group_ids d"
    proof
      assume "sqlite_sequence d + 1 \<in> group_ids d"
      then obtain n where "(n, sqlite_sequence d + 1) \<in> set (aliases d)"
        unfolding in_group_ids ..
      then show False using store_inv_alias_row [OF assms] by fastforce
    qed
    have not_grp: "sqlite_sequence d + 1 \<notin> set (groups d)"
    proof
      assume "sqlite_sequence d + 1 \<in> set (groups d)"
      then have "sqlite_sequence d + 1 \<le> sqlite_sequence d"
        using store_inv_group_row [OF assms] by blast
      then show False by simp
    qed
    have le: "getGroupID d a \<le> sqlite_sequence d"
      using assms a by (rule getGroupID_le_seq)
    show ?thesis using g new not_ref not_grp le by auto
  qed
  have differ: "?u = ensure_both d a b \<and>
            (\<forall>x \<in> created d. getGroupID ?u x = getGroupID d x) \<and>
            (a \<in> created d \<and> b \<in> created d \<longrightarrow> ?u = d)"
    if ne: "getGroupID d a \<noteq> getGroupID d b"
  proof -
    have "getGroupID (ensure_both d a b) a \<noteq> getGroupID (ensure_both d a b) b"
      using assms ne by (rule ensure_both_differ)
    then have u: "?u = ensure_both d a b"
      by (simp add: unlinkItems_conv [OF assms] Let_def)
    show ?thesis
      unfolding u by (simp add: getGroupID_ensure_both [OF assms] ensure_both_existing)
  qed
  show ?thesis using shared differ by blast
qed

theorem unlink_moves_only_second_item_witness:
  "store_inv trio \<and> ''a'' \<in> created trio \<and>
   getGroupID trio ''a'' = getGroupID trio ''b'' \<and>
   getGroupID trio ''c'' = getGroupID trio ''a'' \<and>
   getGroupID (unlinkItems trio ''a'' ''b'') ''a'' = getGroupID (unlinkItems trio ''a'' ''b'') ''c'' \<and>
   getGroupID (unlinkItems trio ''a'' ''b'') ''c'' \<noteq> getGroupID (unlinkItems trio ''a'' ''b'') ''b'' \<and>
   getGroupID (unlinkItems trio ''a'' ''b'') ''b'' = 5 \<and>
   getGroupID trio ''a'' \<noteq> getGroupID trio ''z'' \<and>
   unlinkItems trio ''a'' ''z'' = trio"
proof -
  have inv: "store_inv trio"
    unfolding trio_def using store_inv_empty by (rule store_inv_run_ops)
  have a: "''a'' \<in> created trio" and z: "''z'' \<in> created trio" by code_simp+
  have ab: "getGroupID trio ''a'' = getGroupID trio ''b''" by code_simp
  have ca: "getGroupID trio ''c'' = getGroupID trio ''a''" by code_simp
  have az: "getGroupID trio ''a'' \<noteq> getGroupID trio ''z''" by code_simp
  have sq: "sqlite_sequence trio = 4" by code_simp
  have ne: "''a'' \<noteq> ''b''" "''c'' \<noteq> ''b''" by simp_all
  note t1 = unlink_moves_only_second_item [OF inv, of "''a''" "''b''", THEN conjunct1, THEN mp,
      OF conjI [OF a ab]]
  note t2 = unlink_moves_only_second_item [OF inv, of "''a''" "''z''", THEN conjunct2, THEN mp,
      OF az]
  have "getGroupID (unlinkItems trio ''a'' ''b'') ''b'' = sqlite_sequence trio + 1"
    using t1 by (rule conjunct1)
  then have b5: "getGroupID (unlinkItems trio ''a'' ''b'') ''b'' = 5"
    unfolding sq by simp
  note t1c = t1 [THEN conjunct2, THEN conjunct2, THEN conjunct2, THEN conjunct2, THEN conjunct2]
  note ac = t1c [THEN spec [where x = "''c''"], THEN mp, OF conjI [OF ne(1) conjI [OF ne(2) ca]]]
  note same = t2 [THEN conjunct2, THEN conjunct2, THEN mp, OF conjI [OF a z]]
  show ?thesis by (intro conjI inv a ab ca b5 az same ac [THEN conjunct1] ac [THEN conjunct2])
qed

text \<open>
  \<^bold>\<open>C2.\<close> In a store that satisfies \<open>store_inv\<close>, after \<open>linkItems d a b\<close> both items
  exist; an item that was new stands alone, with score 0, in a group whose identifier is
  above the old counter, before the merge; existing items enter the merge with the
  identifier they had. The merge maps every item that has \<open>b\<close>'s identifier to \<open>a\<close>'s
  and leaves all others alone, so \<open>a\<close> keeps its identifier and \<open>b\<close> gets it; if the two
  identifiers differed, \<open>b\<close>'s old one is held by no item and is no row of \<open>groups\<close>
  any more; if they were equal, nothing happens beyond the creation of missing items.
  Linking twice is linking once, and after \<open>link(a, b)\<close> and \<open>link(b, c)\<close> the three
  items share one identifier, which is not 0.
\<close>

theorem link_merges_into_first_group:
  assumes "store_inv d"
  shows "a \<in> created (linkItems d a b) \<and> b \<in> created (linkItems d a b) \<and>
         (\<forall>x. x \<notin> created d \<and> (x = a \<or> x = b) \<longrightarrow>
            sqlite_sequence d < getGroupID (ensure_both d a b) x \<and>
            group_members (ensure_both d a b) (getGroupID (ensure_both d a b) x) = [x] \<and>
            getScore (ensure_both d a b) x = 0) \<and>
         (\<forall>x \<in> created d. getGroupID (ensure_both d a b) x = getGroupID d x) \<and>
         (\<forall>n. getGroupID (linkItems d a b) n =
            (if getGroupID (ensure_both d a b) n = getGroupID (ensure_both d a b) b
             then getGroupID (ensure_both d a b) a else getGroupID (ensure_both d a b) n)) \<and>
         getGroupID (linkItems d a b) a = getGroupID (ensure_both d a b) a \<and>
         getGroupID (linkItems d a b) b = getGroupID (ensure_both d a b) a \<and>
         (getGroupID (ensure_both d a b) a \<noteq> getGroupID (ensure_both d a b) b \<longrightarrow>
            getGroupID (ensure_both d a b) b \<notin> group_ids (linkItems d a b) \<and>
            getGroupID (ensure_both d a b) b \<notin> set (groups (linkItems d a b))) \<and>
         (getGroupID (ensure_both d a b) a = getGroupID (ensure_both d a b) b \<longrightarrow>
            linkItems d a b = ensure_both d a b) \<and>
         linkItems (linkItems d a b) a b = linkItems d a b \<and>
         getGroupID (linkItems (linkItems d a b) b c) a = getGroupID (linkItems (linkItems d a b) b c) b \<and>
         getGroupID (linkItems (linkItems d a b) b c) b = getGroupID (linkItems (linkItems d a b) b c) c \<and>
         getGroupID (linkItems (linkItems d a b) b c) a \<noteq> 0"
proof -
  have ex: "a \<in> created (linkItems d a b)" "b \<in> created (linkItems d a b)"
    using assms by (rule link_both_created)+
  have fresh: "sqlite_sequence d < getGroupID (ensure_both d a b) x \<and>
            group_members (ensure_both d a b) (getGroupID (ensure_both d a b) x) = [x] \<and>
            getScore (ensure_both d a b) x = 0"
    if "x \<notin> created d \<and> (x = a \<or> x = b)" for x
    using new_item_alone [OF assms, of x a b] that by blast
  have kept: "getGroupID (ensure_both d a b) x = getGroupID d x" if "x \<in> created d" for x
    using that by (simp add: getGroupID_ensure_both [OF assms])
  have repoint: "getGroupID (linkItems d a b) n =
            (if getGroupID (ensure_both d a b) n = getGroupID (ensure_both d a b) b
             then getGroupID (ensure_both d a b) a else getGroupID (ensure_both d a b) n)" for n
    by (simp add: getGroupID_link [OF assms] Let_def)
  note surv = link_same_group [OF assms]
  note retired = link_retires_second [OF assms]
  note noop = link_noop
  note idem = link_idempotent [OF assms]
  note chain = link_chain [OF assms]
  show ?thesis
    using ex fresh kept repoint surv retired noop idem chain by (intro conjI allI ballI impI) simp_all
qed

theorem link_merges_into_first_group_witness:
  "store_inv retire_start \<and>
   getGroupID (ensure_both retire_start ''a'' ''b'') ''a'' \<noteq> getGroupID (ensure_both retire_start ''a'' ''b'') ''b'' \<and>
   getGroupID (ensure_both retire_start ''a'' ''b'') ''b'' = 2 \<and>
   getGroupID (linkItems retire_start ''a'' ''b'') ''b'' = 1 \<and>
   2 \<notin> group_ids (linkItems retire_start ''a'' ''b'') \<and>
   ''c'' \<notin> created (linkItems retire_start ''a'' ''b'') \<and>
   getGroupID (linkItems (linkItems retire_start ''a'' ''b'') ''b'' ''c'') ''a'' =
     getGroupID (linkItems (linkItems retire_start ''a'' ''b'') ''b'' ''c'') ''b'' \<and>
   getGroupID (linkItems (linkItems retire_start ''a'' ''b'') ''b'' ''c'') ''b'' =
     getGroupID (linkItems (linkItems retire_start ''a'' ''b'') ''b'' ''c'') ''c'' \<and>
   ''q'' \<notin> created retire_start \<and>
   sqlite_sequence retire_start < getGroupID (ensure_both retire_start ''a'' ''q'') ''q'' \<and>
   group_members (ensure_both retire_start ''a'' ''q'')
     (getGroupID (ensure_both retire_start ''a'' ''q'') ''q'') = [''q''] \<and>
   linkItems retire_start ''a'' ''a'' = ensure_both retire_start ''a'' ''a''"
proof -
  have inv: "store_inv retire_start"
    unfolding retire_start_def using store_inv_empty by (rule store_inv_run_ops)
  have ne: "getGroupID (ensure_both retire_start ''a'' ''b'') ''a'' \<noteq>
      getGroupID (ensure_both retire_start ''a'' ''b'') ''b''" by code_simp
  have ga: "getGroupID (ensure_both retire_start ''a'' ''b'') ''a'' = 1" by code_simp
  have gb: "getGroupID (ensure_both retire_start ''a'' ''b'') ''b'' = 2" by code_simp
  have c: "''c'' \<notin> created (linkItems retire_start ''a'' ''b'')" by code_simp
  note t = link_merges_into_first_group [OF inv, of "''a''" "''b''" "''c''"]
  note t2 = t [THEN conjunct2, THEN conjunct2, THEN conjunct2, THEN conjunct2, THEN conjunct2]
  note surv_b = t2 [THEN conjunct2, THEN conjunct1]
  note ret = t2 [THEN conjunct2, THEN conjunct2, THEN conjunct1, THEN mp, OF ne, THEN conjunct1]
  note t3 = t2 [THEN conjunct2, THEN conjunct2, THEN conjunct2, THEN conjunct2, THEN conjunct2]
  note ab = t3 [THEN conjunct1]
  note bc = t3 [THEN conjunct2, THEN conjunct1]
  have q: "''q'' \<notin> created retire_start" by code_simp
  note tq = link_merges_into_first_group [OF inv, of "''a''" "''q''" "''c''", THEN conjunct2,
      THEN conjunct2, THEN conjunct1, THEN spec [where x = "''q''"], THEN mp,
      OF conjI [OF q disjI2 [OF refl]]]
  note ta = link_merges_into_first_group [OF inv, of "''a''" "''a''" "''c''"]
  note ta2 = ta [THEN conjunct2, THEN conjunct2, THEN conjunct2, THEN conjunct2, THEN conjunct2,
      THEN conjunct2, THEN conjunct2, THEN conjunct2, THEN conjunct1, THEN mp, OF refl]
  show ?thesis
    by (intro conjI inv ne gb surv_b [unfolded ga] ret [unfolded gb] c ab bc q
        tq [THEN conjunct1] tq [THEN conjunct2, THEN conjunct1] ta2)
qed



text \<open>
  \<^bold>\<open>C4.\<close> Let the lines \<open>alpha++\<close>, \<open>beta++\<close>, \<open>!link alpha beta\<close>, \<open>alpha++\<close>,
  \<open>!total beta\<close> arrive in a private message or on an active channel, at a bot with the
  empty store that has sent nothing yet. Then \<open>handleMessage\<close> of tallybot.go sends
  exactly the five answers \<open>alpha: [1]\<close>, \<open>beta: [1]\<close>, \<open>Linked alpha and beta.\<close>,
  \<open>alpha: [2] (linked with: beta)\<close>, \<open>Total score for group including beta: [3]\<close> to
  that channel, in this order, the \<open>k\<close>-th after the \<open>k\<close>-th line. The single-channel
  source file sends the same answers to its channel.
\<close>

theorem concrete_scenario_replies:
  assumes "take 1 channel \<noteq> ''#'' \<or> activeChannels tbot channel"
    and "db tbot = initializeDatabase None" and "conn tbot = []"
  shows "conn (handleMessages tbot channel nick scenario_lines) =
           [(channel, ''alpha: [1]''), (channel, ''beta: [1]''),
            (channel, ''Linked alpha and beta.''),
            (channel, ''alpha: [2] (linked with: beta)''),
            (channel, ''Total score for group including beta: [3]'')] \<and>
         (\<forall>k. conn (handleMessages tbot channel nick (take k scenario_lines)) =
            map (Pair channel) (take k scenario_replies)) \<and>
         (\<forall>sbot k. single_db sbot = initializeDatabase None \<and> single_conn sbot = [] \<longrightarrow>
            single_conn (handleMessages_single sbot nick (take k scenario_lines)) =
              map (Pair (single_channel sbot)) (take k scenario_replies))"
proof -
  have init: "db tbot = empty_db" using assms(2) by (simp add: initializeDatabase_def)
  have pre: "conn (handleMessages tbot channel nick (take k scenario_lines)) =
      map (Pair channel) (take k scenario_replies)" for k
    unfolding handleMessages_guard_open [OF assms(1)] init assms(3)
    by (simp add: scenario_prefixes)
  have "conn (handleMessages tbot channel nick (take 5 scenario_lines)) =
      map (Pair channel) (take 5 scenario_replies)" by (rule pre)
  then have all: "conn (handleMessages tbot channel nick scenario_lines) =
           [(channel, ''alpha: [1]''), (channel, ''beta: [1]''),
            (channel, ''Linked alpha and beta.''),
            (channel, ''alpha: [2] (linked with: beta)''),
            (channel, ''Total score for group including beta: [3]'')]"
    by (simp add: scenario_lines_def scenario_replies_def)
  have single: "single_conn (handleMessages_single sbot nick (take k scenario_lines)) =
              map (Pair (single_channel sbot)) (take k scenario_replies)"
    if "single_db sbot = initializeDatabase None \<and> single_conn sbot = []" for sbot k
    using that unfolding handleMessages_single_conv
    by (simp add: initializeDatabase_def scenario_prefixes_single)
  show ?thesis using all pre single by blast
qed

theorem concrete_scenario_replies_witness:
  "activeChannels channel_bot ''#tallybot'' \<and>
   db channel_bot = initializeDatabase None \<and> conn channel_bot = [] \<and>
   conn (handleMessages channel_bot ''#tallybot'' ''nick'' scenario_lines) =
     [(''#tallybot'', ''alpha: [1]''), (''#tallybot'', ''beta: [1]''),
      (''#tallybot'', ''Linked alpha and beta.''),
      (''#tallybot'', ''alpha: [2] (linked with: beta)''),
      (''#tallybot'', ''Total score for group including beta: [3]'')] \<and>
   single_db single_bot = initializeDatabase None \<and> single_conn single_bot = [] \<and>
   single_conn (handleMessages_single single_bot ''nick'' (take 4 scenario_lines)) =
     map (Pair (single_channel single_bot)) (take 4 scenario_replies)"
proof -
  have act: "activeChannels channel_bot ''#tallybot''" by (simp add: channel_bot_def)
  have d: "db channel_bot = initializeDatabase None" and c: "conn channel_bot = []"
    by (simp_all add: channel_bot_def)
  note t = concrete_scenario_replies [OF disjI2 [OF act] d c, of "''nick''", THEN conjunct1]
  have sd: "single_db single_bot = initializeDatabase None" and sc: "single_conn single_bot = []"
    by (simp_all add: single_bot_def initializeDatabase_def)
  note ts = concrete_scenario_replies [OF disjI2 [OF act] d c, of "''nick''", THEN conjunct2,
      THEN conjunct2, THEN spec [where x = single_bot], THEN spec [where x = 4], THEN mp,
      OF conjI [OF sd sc]]
  show ?thesis by (intro conjI act d c t sd sc ts)
qed

text \<open>
  \<^bold>\<open>C5.\<close> From a store that satisfies \<open>store_inv\<close> (the empty store does), after every
  sequence of operations (ensure-item, apply-delta, link, unlink, total, list-linked)
  and after every sequence of messages handled by either source file, \<open>tallies\<close> and
  \<open>aliases\<close> have the same keys, every created item has exactly one \<open>aliases\<close> row, and
  every \<open>aliases\<close> row belongs to a created item.
\<close>

theorem partition_total_single_valued:
  assumes "store_inv d"
  shows "partition_ok (run_ops d ops) \<and>
         (\<forall>tbot channel nick ms. db tbot = d \<longrightarrow>
            partition_ok (db (handleMessages tbot channel nick ms))) \<and>
         (\<forall>sbot nick ms. single_db sbot = d \<longrightarrow>
            partition_ok (single_db (handleMessages_single sbot nick ms)))"
proof -
  have ok: "partition_ok (run_ops d os)" for os
  proof -
    let ?d = "run_ops d os"
    have inv: "store_inv ?d" using assms by (rule store_inv_run_ops)
    have keys: "set (map fst (tallies ?d)) = set (map fst (aliases ?d))"
      and dt: "distinct (map fst (tallies ?d))" and da: "distinct (map fst (aliases ?d))"
      using inv by (simp_all add: store_inv_def)
    have one: "\<exists>!g. (n, g) \<in> set (aliases ?d)" if "n \<in> created ?d" for n
    proof -
      from that keys have "n \<in> set (map fst (aliases ?d))" by (simp add: created_def)
      then obtain g where "(n, g) \<in> set (aliases ?d)" by auto
      then show ?thesis using alias_row_unique [OF da] by blast
    qed
    have owner: "fst r \<in> created ?d" if "r \<in> set (aliases ?d)" for r
      using that keys by (simp add: created_def)
    show ?thesis unfolding partition_ok_def using keys dt da one owner by blast
  qed
  have msgs: "partition_ok (db (handleMessages tbot channel nick ms))" if "db tbot = d"
    for tbot channel nick ms
  proof -
    obtain os where "db (handleMessages tbot channel nick ms) = run_ops (db tbot) os"
      using handleMessages_ops by blast
    then show ?thesis using ok [of os] that by simp
  qed
  have single: "partition_ok (single_db (handleMessages_single sbot nick ms))"
    if "single_db sbot = d" for sbot nick ms
  proof -
    obtain os where "single_db (handleMessages_single sbot nick ms) = run_ops (single_db sbot) os"
      using handleMessages_single_ops by blast
    then show ?thesis using ok [of os] that by simp
  qed
  show ?thesis using ok msgs single by blast
qed

theorem partition_total_single_valued_witness:
  "store_inv empty_db \<and>
   partition_ok (run_ops empty_db demo_ops) \<and>
   aliases (run_ops empty_db demo_ops) =
     [(''alpha'', 1), (''beta'', 4), (''gamma'', 1), (''delta'', 4)] \<and>
   map fst (tallies (run_ops empty_db demo_ops)) = [''alpha'', ''beta'', ''gamma'', ''delta''] \<and>
   db channel_bot = empty_db \<and>
   partition_ok (db (handleMessages channel_bot ''#tallybot'' ''nick'' scenario_lines)) \<and>
   single_db single_bot = empty_db \<and>
   partition_ok (single_db (handleMessages_single single_bot ''nick'' scenario_lines))"
proof -
  have inv: "store_inv empty_db" by (rule store_inv_empty)
  have al: "aliases (run_ops empty_db demo_ops) =
     [(''alpha'', 1), (''beta'', 4), (''gamma'', 1), (''delta'', 4)]" by code_simp
  have tl: "map fst (tallies (run_ops empty_db demo_ops)) = [''alpha'', ''beta'', ''gamma'', ''delta'']"
    by code_simp
  note t = partition_total_single_valued [OF inv, of demo_ops, THEN conjunct1]
  have cd: "db channel_bot = empty_db"
    by (simp add: channel_bot_def initializeDatabase_def)
  have sd: "single_db single_bot = empty_db" by (simp add: single_bot_def)
  note tm = partition_total_single_valued [OF inv, of demo_ops, THEN conjunct2, THEN conjunct1,
      THEN spec [where x = channel_bot], THEN spec [where x = "''#tallybot''"],
      THEN spec [where x = "''nick''"], THEN spec [where x = scenario_lines], THEN mp, OF cd]
  note ts = partition_total_single_valued [OF inv, of demo_ops, THEN conjunct2, THEN conjunct2,
      THEN spec [where x = single_bot], THEN spec [where x = "''nick''"],
      THEN spec [where x = scenario_lines], THEN mp, OF sd]
  show ?thesis by (intro conjI inv t al tl cd tm sd ts)
qed

text \<open>
  \<^bold>\<open>C6.\<close> In a store that satisfies \<open>store_inv\<close> and for two different items \<open>a\<close> and
  \<open>b\<close>: \<open>linkItems\<close> puts them into one group, and the \<open>unlinkItems\<close> that follows
  separates them again and leaves the table \<open>tallies\<close> exactly as it was. Moreover no
  \<open>unlinkItems\<close> whatsoever changes the score \<open>getScore\<close> reports for any item: what
  it leaves in \<open>tallies\<close> is what its two \<open>ensureItemExists\<close> calls leave there, and
  that is the table it found when both items exist.
\<close>

theorem link_then_unlink_separates_and_keeps_scores:
  assumes "store_inv d" and "a \<noteq> b"
  shows "getGroupID (linkItems d a b) a = getGroupID (linkItems d a b) b \<and>
         getGroupID (unlinkItems (linkItems d a b) a b) a \<noteq>
           getGroupID (unlinkItems (linkItems d a b) a b) b \<and>
         tallies (unlinkItems (linkItems d a b) a b) = tallies (linkItems d a b) \<and>
         (\<forall>n. getScore (unlinkItems (linkItems d a b) a b) n = getScore (linkItems d a b) n) \<and>
         (\<forall>x y n. getScore (unlinkItems d x y) n = getScore d n) \<and>
         (\<forall>x y. tallies (unlinkItems d x y) = tallies (ensure_both d x y)) \<and>
         (\<forall>x y. x \<in> created d \<and> y \<in> created d \<longrightarrow>
            tallies (unlinkItems d x y) = tallies d)"
proof -
  let ?l = "linkItems d a b"
  let ?u = "unlinkItems ?l a b"
  have invl: "store_inv ?l" using assms(1) by (rule store_inv_link)
  have a: "a \<in> created ?l" and b: "b \<in> created ?l"
    using assms(1) by (rule link_both_created)+
  have same: "getGroupID ?l a = getGroupID ?l b"
    by (simp add: link_same_group [OF assms(1)])
  have e: "ensure_both ?l a b = ?l" using a b by (rule ensure_both_existing)
  have gu: "getGroupID ?u n = (if n = b then sqlite_sequence ?l + 1 else getGroupID ?l n)" for n
    using same by (simp add: getGroupID_unlink [OF invl] e)
  have "getGroupID ?l a \<le> sqlite_sequence ?l" using invl a by (rule getGroupID_le_seq)
  then have sep: "getGroupID ?u a \<noteq> getGroupID ?u b" using assms(2) by (simp add: gu)
  have tal: "tallies ?u = tallies ?l" by (simp add: tallies_unlink e)
  have sc: "getScore ?u n = getScore ?l n" for n
    using invl by (rule getScore_unlink)
  have frame: "getScore (unlinkItems d x y) n = getScore d n" for x y n
    using assms(1) by (rule getScore_unlink)
  have own: "tallies (unlinkItems d x y) = tallies (ensure_both d x y)" for x y
    by (rule tallies_unlink)
  have both: "tallies (unlinkItems d x y) = tallies d"
    if "x \<in> created d \<and> y \<in> created d" for x y
    using that by (simp add: tallies_unlink ensure_both_existing)
  show ?thesis using same sep tal sc frame own both by blast
qed

theorem link_then_unlink_separates_and_keeps_scores_witness:
  "store_inv scored \<and> ''a'' \<noteq> ''b'' \<and>
   getGroupID (unlinkItems (linkItems scored ''a'' ''b'') ''a'' ''b'') ''a'' \<noteq>
     getGroupID (unlinkItems (linkItems scored ''a'' ''b'') ''a'' ''b'') ''b'' \<and>
   tallies (unlinkItems (linkItems scored ''a'' ''b'') ''a'' ''b'') = [(''a'', 2), (''b'', - 1)] \<and>
   getScore (unlinkItems scored ''x'' ''y'') ''x'' = 0"
proof -
  have inv: "store_inv scored"
    unfolding scored_def using store_inv_empty by (rule store_inv_run_ops)
  have ne: "''a'' \<noteq> ''b''" by simp
  have tl: "tallies (linkItems scored ''a'' ''b'') = [(''a'', 2), (''b'', - 1)]" by code_simp
  have sx: "getScore scored ''x'' = 0" by code_simp
  note t = link_then_unlink_separates_and_keeps_scores [OF inv ne]
  note sep = t [THEN conjunct2, THEN conjunct1]
  note tal = t [THEN conjunct2, THEN conjunct2, THEN conjunct1]
  note frame = t [THEN conjunct2, THEN conjunct2, THEN conjunct2, THEN conjunct2, THEN conjunct1,
      THEN spec [where x = "''x''"], THEN spec [where x = "''y''"], THEN spec [where x = "''x''"]]
  show ?thesis
    by (intro conjI inv ne sep tal [unfolded tl] frame [unfolded sx])
qed

text \<open>
  \<^bold>\<open>C7.\<close> In a store that satisfies \<open>store_inv\<close>: a group identifier that some item
  holds now and no item holds after the operations \<open>ops1\<close> is held by no item after any
  further operations \<open>ops2\<close>. Allocation only goes up: the counter never decreases, an
  identifier that is live later was live before or is above the old counter, every live
  identifier is at most the counter, and the next identifier handed out is the counter
  plus one, which becomes the new counter.
\<close>

theorem retired_group_id_never_reappears:
  assumes "store_inv d"
  shows "(g \<in> group_ids d \<and> g \<notin> group_ids (run_ops d ops1) \<longrightarrow>
            g \<notin> group_ids (run_ops (run_ops d ops1) ops2)) \<and>
         sqlite_sequence d \<le> sqlite_sequence (run_ops d ops1) \<and>
         (\<forall>g' \<in> group_ids (run_ops d ops1). g' \<in> group_ids d \<or> sqlite_sequence d < g') \<and>
         (\<forall>g' \<in> group_ids d. g' \<le> sqlite_sequence d) \<and>
         insert_group d =
           Inr (sqlite_sequence d + 1,
                d\<lparr>groups := groups d @ [sqlite_sequence d + 1],
                  sqlite_sequence := sqlite_sequence d + 1\<rparr>)"
proof -
  let ?d1 = "run_ops d ops1"
  let ?d2 = "run_ops ?d1 ops2"
  have inv1: "store_inv ?d1" using assms by (rule store_inv_run_ops)
  have e1: "extends d ?d1" using assms by (rule extends_run_ops)
  have e2: "extends ?d1 ?d2" using inv1 by (rule extends_run_ops)
  have bound: "g' \<le> sqlite_sequence d" if "g' \<in> group_ids d" for g'
  proof -
    from that obtain n where "(n, g') \<in> set (aliases d)" unfolding in_group_ids ..
    then show ?thesis using store_inv_alias_row [OF assms] by blast
  qed
  have seq: "sqlite_sequence d \<le> sqlite_sequence ?d1" using e1 by (simp add: extends_def)
  have fresh: "g' \<in> group_ids d \<or> sqlite_sequence d < g'" if "g' \<in> group_ids ?d1" for g'
    using e1 that by (simp add: extends_def)
  have never: "g \<notin> group_ids ?d2" if in0: "g \<in> group_ids d" and out1: "g \<notin> group_ids ?d1"
  proof
    assume "g \<in> group_ids ?d2"
    then have "g \<in> group_ids ?d1 \<or> sqlite_sequence ?d1 < g" using e2 by (simp add: extends_def)
    then have "sqlite_sequence ?d1 < g" using out1 by simp
    moreover have "g \<le> sqlite_sequence ?d1" using bound [OF in0] seq by simp
    ultimately show False by simp
  qed
  have ins: "insert_group d =
           Inr (sqlite_sequence d + 1,
                d\<lparr>groups := groups d @ [sqlite_sequence d + 1],
                  sqlite_sequence := sqlite_sequence d + 1\<rparr>)"
    using assms by (rule insert_group_inv)
  show ?thesis using never seq fresh bound ins by blast
qed

theorem retired_group_id_never_reappears_witness:
  "store_inv retire_start \<and>
   2 \<in> group_ids retire_start \<and>
   2 \<notin> group_ids (run_ops retire_start [Link ''a'' ''b'']) \<and>
   2 \<notin> group_ids (run_ops (run_ops retire_start [Link ''a'' ''b''])
                    [Unlink ''a'' ''b'', EnsureItem ''c'']) \<and>
   getGroupID (run_ops (run_ops retire_start [Link ''a'' ''b''])
                    [Unlink ''a'' ''b'', EnsureItem ''c'']) ''b'' = 3"
proof -
  have inv: "store_inv retire_start"
    unfolding retire_start_def using store_inv_empty by (rule store_inv_run_ops)
  have in0: "2 \<in> group_ids retire_start" by code_simp
  have out1: "2 \<notin> group_ids (run_ops retire_start [Link ''a'' ''b''])" by code_simp
  have b: "getGroupID (run_ops (run_ops retire_start [Link ''a'' ''b''])
                    [Unlink ''a'' ''b'', EnsureItem ''c'']) ''b'' = 3" by code_simp
  show ?thesis
    using retired_group_id_never_reappears [OF inv, of 2 "[Link ''a'' ''b'']"
        "[Unlink ''a'' ''b'', EnsureItem ''c'']"] inv in0 out1 b
    by blast
qed




text \<open>
  \<^bold>\<open>C9.\<close> In a store that satisfies \<open>store_inv\<close>, \<open>unlinkItems d x x\<close> gives \<open>x\<close> an
  identifier one above the counter (after \<open>x\<close> was created, if it was missing), which is
  above the old counter and held by no item before. Every other item keeps its
  identifier, which differs from the new one of \<open>x\<close>; in particular the items linked
  with \<open>x\<close> before stay in the old group of \<open>x\<close>. Afterwards \<open>x\<close> is the only member of
  its group and has no linked items. For an \<open>x\<close> that was alone this only replaces its
  identifier by a fresh one.
\<close>

theorem unlink_self_isolates_item:
  assumes "store_inv d"
  shows "getGroupID (unlinkItems d x x) x = sqlite_sequence (ensureItemExists d x) + 1 \<and>
         sqlite_sequence d < getGroupID (unlinkItems d x x) x \<and>
         getGroupID (unlinkItems d x x) x \<notin> group_ids d \<and>
         (x \<in> created d \<longrightarrow> getGroupID (unlinkItems d x x) x = sqlite_sequence d + 1) \<and>
         (\<forall>y. y \<noteq> x \<longrightarrow>
            getGroupID (unlinkItems d x x) y = getGroupID d y \<and>
            getGroupID (unlinkItems d x x) y \<noteq> getGroupID (unlinkItems d x x) x) \<and>
         (\<forall>y \<in> set (getLinkedItems d x).
            getGroupID (unlinkItems d x x) y = getGroupID d x \<and>
            getGroupID (unlinkItems d x x) y \<noteq> getGroupID (unlinkItems d x x) x) \<and>
         group_members (unlinkItems d x x) (getGroupID (unlinkItems d x x) x) = [x] \<and>
         getLinkedItems (unlinkItems d x x) x = []"
proof -
  let ?u = "unlinkItems d x x"
  let ?new = "sqlite_sequence (ensureItemExists d x) + 1"
  have invu: "store_inv ?u" using assms by (rule store_inv_unlink)
  have g: "getGroupID ?u n = (if n = x then ?new else getGroupID d n)" for n
    using assms by (rule getGroupID_unlink_self)
  have seq: "sqlite_sequence d \<le> sqlite_sequence (ensureItemExists d x)"
    by (simp add: seq_ensure [OF assms])
  have new: "getGroupID ?u x = ?new" by (simp add: g)
  have above: "sqlite_sequence d < getGroupID ?u x" using new seq by simp
  have old: "getGroupID d y \<le> sqlite_sequence d" for y
  proof (cases "y \<in> created d")
    case True
    then show ?thesis using getGroupID_le_seq [OF assms] by blast
  next
    case False
    then have "getGroupID d y = 0" using getGroupID_nonzero_created [OF assms] by blast
    then show ?thesis using assms by (simp add: store_inv_def)
  qed
  have unref: "getGroupID ?u x \<notin> group_ids d"
  proof
    assume "getGroupID ?u x \<in> group_ids d"
    then obtain n where "getGroupID d n = getGroupID ?u x"
      unfolding group_ids_getGroupID [OF assms] by blast
    then show False using old [of n] above by simp
  qed
  have ex: "getGroupID ?u x = sqlite_sequence d + 1" if "x \<in> created d"
    using that new by (simp add: seq_ensure [OF assms])
  have others: "getGroupID ?u y = getGroupID d y \<and> getGroupID ?u y \<noteq> getGroupID ?u x"
    if "y \<noteq> x" for y
    using that old [of y] above by (simp add: g)
  have mates: "getGroupID ?u y = getGroupID d x \<and> getGroupID ?u y \<noteq> getGroupID ?u x"
    if "y \<in> set (getLinkedItems d x)" for y
  proof -
    from that have "y \<noteq> x" and "getGroupID d y = getGroupID d x"
      unfolding linked_items_set [OF assms] by simp_all
    then show ?thesis using others [of y] by simp
  qed
  have xu: "x \<in> created ?u"
    by (simp add: created_unlink created_ensure_both [OF assms])
  have "set (group_members ?u (getGroupID ?u x)) = {x}"
    unfolding group_members_created [OF invu] using xu others by auto
  moreover have "distinct (group_members ?u (getGroupID ?u x))"
    using invu by (intro group_members_distinct) (simp add: store_inv_def)
  ultimately have ms: "group_members ?u (getGroupID ?u x) = [x]"
    by (intro distinct_set_single)
  have li: "getLinkedItems ?u x = []"
    by (simp add: getLinkedItems_conv [OF invu xu] ms)
  show ?thesis using new above unref ex others mates ms li by blast
qed

theorem unlink_self_isolates_item_witness:
  "store_inv pair_ab \<and>
   getLinkedItems pair_ab ''a'' = [''b''] \<and>
   getGroupID (unlinkItems pair_ab ''a'' ''a'') ''a'' = 4 \<and>
   getGroupID (unlinkItems pair_ab ''a'' ''a'') ''b'' = getGroupID pair_ab ''a'' \<and>
   getGroupID (unlinkItems pair_ab ''a'' ''a'') ''b'' \<noteq> getGroupID (unlinkItems pair_ab ''a'' ''a'') ''a'' \<and>
   getLinkedItems (unlinkItems pair_ab ''a'' ''a'') ''a'' = [] \<and>
   getLinkedItems pair_ab ''s'' = [] \<and>
   getGroupID pair_ab ''s'' = 3 \<and>
   getGroupID (unlinkItems pair_ab ''s'' ''s'') ''s'' = 4"
proof -
  have inv: "store_inv pair_ab"
    unfolding pair_ab_def using store_inv_empty by (rule store_inv_run_ops)
  have la: "getLinkedItems pair_ab ''a'' = [''b'']" by code_simp
  have ls: "getLinkedItems pair_ab ''s'' = []" by code_simp
  have gs: "getGroupID pair_ab ''s'' = 3" by code_simp
  have ca: "''a'' \<in> created pair_ab" and cs: "''s'' \<in> created pair_ab" by code_simp+
  have sq: "sqlite_sequence pair_ab = 3" by code_simp
  have mb: "''b'' \<in> set (getLinkedItems pair_ab ''a'')" unfolding la by simp
  note ta = unlink_self_isolates_item [OF inv, of "''a''"]
  note ts = unlink_self_isolates_item [OF inv, of "''s''"]
  note ta4 = ta [THEN conjunct2, THEN conjunct2, THEN conjunct2, THEN conjunct1, THEN mp, OF ca]
  note ts4 = ts [THEN conjunct2, THEN conjunct2, THEN conjunct2, THEN conjunct1, THEN mp, OF cs]
  note tam = ta [THEN conjunct2, THEN conjunct2, THEN conjunct2, THEN conjunct2, THEN conjunct2,
      THEN conjunct1, THEN bspec, OF mb]
  note tal = ta [THEN conjunct2, THEN conjunct2, THEN conjunct2, THEN conjunct2, THEN conjunct2,
      THEN conjunct2, THEN conjunct2]
  have a4: "getGroupID (unlinkItems pair_ab ''a'' ''a'') ''a'' = 4" using ta4 unfolding sq by simp
  have s4: "getGroupID (unlinkItems pair_ab ''s'' ''s'') ''s'' = 4" using ts4 unfolding sq by simp
  show ?thesis
    by (intro conjI inv la a4 tam [THEN conjunct1] tam [THEN conjunct2] tal ls gs s4)
qed

text \<open>
  \<^bold>\<open>C10.\<close> The first identifier the empty store hands out is 1, and in every store
  reached from the empty one the next identifier is above the counter, every \<open>aliases\<close>
  row holds an identifier of at least 1, \<open>getGroupID\<close> is 0 exactly for the items never
  created, and for a created item \<open>getTotalScore\<close> is the sum over its group and
  \<open>getLinkedItems\<close> lists the other members of its group.
\<close>

theorem zero_group_id_means_never_created:
  "insert_group empty_db = Inr (1, empty_db\<lparr>groups := [1], sqlite_sequence := 1\<rparr>) \<and>
   (\<exists>g d'. insert_group (run_ops empty_db ops) = Inr (g, d') \<and>
      1 \<le> g \<and> sqlite_sequence (run_ops empty_db ops) < g) \<and>
   (\<forall>r \<in> set (aliases (run_ops empty_db ops)). 1 \<le> snd r) \<and>
   (\<forall>n. (getGroupID (run_ops empty_db ops) n = 0) = (n \<notin> created (run_ops empty_db ops))) \<and>
   (\<forall>n \<in> created (run_ops empty_db ops).
      1 \<le> getGroupID (run_ops empty_db ops) n \<and>
      getTotalScore (run_ops empty_db ops) n =
        sum_list (map (getScore (run_ops empty_db ops))
          (group_members (run_ops empty_db ops) (getGroupID (run_ops empty_db ops) n))) \<and>
      getLinkedItems (run_ops empty_db ops) n =
        filter (\<lambda>x. x \<noteq> n)
          (group_members (run_ops empty_db ops) (getGroupID (run_ops empty_db ops) n)))"
proof -
  let ?d = "run_ops empty_db ops"
  have inv: "store_inv ?d" using store_inv_empty by (rule store_inv_run_ops)
  have first: "insert_group empty_db = Inr (1, empty_db\<lparr>groups := [1], sqlite_sequence := 1\<rparr>)"
    by (simp add: insert_group_def empty_db_def)
  have "0 \<le> sqlite_sequence ?d" using inv by (simp add: store_inv_def)
  then have nxt: "\<exists>g d'. insert_group ?d = Inr (g, d') \<and> 1 \<le> g \<and> sqlite_sequence ?d < g"
    by (simp add: insert_group_inv [OF inv])
  have rows: "1 \<le> snd r" if "r \<in> set (aliases ?d)" for r
    using store_inv_alias_row [OF inv, of "fst r" "snd r"] that by simp
  have zero: "(getGroupID ?d n = 0) = (n \<notin> created ?d)" for n
    using getGroupID_zero_iff [OF inv] by (simp add: created_aliases [OF inv])
  have ex: "1 \<le> getGroupID ?d n \<and>
      getTotalScore ?d n = sum_list (map (getScore ?d) (group_members ?d (getGroupID ?d n))) \<and>
      getLinkedItems ?d n = filter (\<lambda>x. x \<noteq> n) (group_members ?d (getGroupID ?d n))"
    if "n \<in> created ?d" for n
  proof -
    have "n \<in> set (map fst (aliases ?d))" using that by (simp add: created_aliases [OF inv])
    then have "1 \<le> getGroupID ?d n" using getGroupID_bounds [OF inv] by blast
    then show ?thesis
      using getTotalScore_sum [OF inv that] getLinkedItems_conv [OF inv that] by simp
  qed
  show ?thesis using first nxt rows zero ex by blast
qed

theorem zero_group_id_means_never_created_witness:
  "''gamma'' \<in> created (run_ops empty_db tally_ops) \<and>
   1 \<le> getGroupID (run_ops empty_db tally_ops) ''gamma'' \<and>
   getGroupID (run_ops empty_db tally_ops) ''gamma'' = 3 \<and>
   getScore (run_ops empty_db tally_ops) ''gamma'' = - 1 \<and>
   getTotalScore (run_ops empty_db tally_ops) ''gamma'' = - 1 \<and>
   getGroupID (run_ops empty_db tally_ops) ''delta'' = 0 \<and>
   ''delta'' \<notin> created (run_ops empty_db tally_ops)"
proof -
  let ?d = "run_ops empty_db tally_ops"
  have c: "''gamma'' \<in> created ?d" by code_simp
  have g: "getGroupID ?d ''gamma'' = 3" by code_simp
  have m: "group_members ?d 3 = [''gamma'']" by code_simp
  have s: "getScore ?d ''gamma'' = - 1" by code_simp
  have dl: "''delta'' \<notin> created ?d" by code_simp
  have inst: "(getGroupID ?d ''delta'' = 0) = (''delta'' \<notin> created ?d)"
    "1 \<le> getGroupID ?d ''gamma''"
    "getTotalScore ?d ''gamma'' = sum_list (map (getScore ?d) (group_members ?d (getGroupID ?d ''gamma'')))"
    using zero_group_id_means_never_created [of tally_ops] c by blast+
  show ?thesis using inst c g m s dl by simp
qed

end
